theory Spec2Isabelle
  imports Main "HOL-Library.Word" "HOL-Library.Signed_Division"
begin

unbundle bit_operations_syntax

section \<open>Data model of expr.go\<close>

text \<open>
  Go's \<^verbatim>\<open>int\<close> is taken at its width on 64-bit platforms: a 64-bit two's complement
  integer whose arithmetic wraps around.
\<close>

type_synonym go_int = "64 word"

text \<open>
  A value of this type is a \<^verbatim>\<open>*Expr\<close>: either the nil pointer or a pointer to a struct
  with the fields \<^verbatim>\<open>op\<close>, \<^verbatim>\<open>left\<close>, \<^verbatim>\<open>right\<close>, \<^verbatim>\<open>ident\<close>, \<^verbatim>\<open>num\<close>. The parser never shares
  or cycles nodes, so the pointer structure is a tree.
\<close>

datatype Expr =
  nil
  | Expr (op: string) (left: Expr) (right: Expr) (ident: string) (num: go_int)

text \<open>
  The text of a message is built from string constants, operators, identifiers and the
  results of \<^verbatim>\<open>fmt.Sprintf("%q", p.s)\<close>. A message is kept as the list of its pieces:
  \<open>Text s\<close> is the string \<open>s\<close> itself and \<open>Quoted s\<close> is the result of
  \<^verbatim>\<open>fmt.Sprintf("%q", s)\<close>, whatever the library writes for \<open>s\<close>.
\<close>

datatype piece =
  Text string
  | Quoted string

text \<open>
  Values that implement Go's \<^verbatim>\<open>error\<close> interface in this package: the result of
  \<^verbatim>\<open>errors.New\<close> (built by \<^verbatim>\<open>throw\<close>) and the run-time errors of an index or a slice
  expression out of range. \<^verbatim>\<open>IndexOutOfRange i n\<close> is
  "runtime error: index out of range [i] with length n".
\<close>

datatype error =
  New "piece list"
  | IndexOutOfRange nat nat
  | SliceBoundsOutOfRange

text \<open>A panic carries either an error value or, for \<^verbatim>\<open>panic("...")\<close>, a plain string.\<close>

datatype panic =
  ErrorValue error
  | StringValue string

text \<open>\<^verbatim>\<open>type ErrorMode int\<close> with \<^verbatim>\<open>ReturnError = iota\<close> and \<^verbatim>\<open>ReturnZero\<close>.\<close>

type_synonym ErrorMode = int

definition ReturnError :: ErrorMode where
  "ReturnError = 0"

definition ReturnZero :: ErrorMode where
  "ReturnZero = 1"

text \<open>The parser struct has the single field \<^verbatim>\<open>s\<close>, the input not yet consumed.\<close>

type_synonym parser = string

definition eof :: char where
  "eof = CHR 0x00"

section \<open>Library functions used by the package\<close>

text \<open>
  \<^verbatim>\<open>fmt.Sprint\<close> of an int: the signed decimal numeral.
\<close>

definition digit_char :: "nat \<Rightarrow> char" where
  "digit_char d = ''0123456789'' ! d"

function decimal :: "nat \<Rightarrow> string" where
  "decimal n = (if n < 10 then [digit_char n] else decimal (n div 10) @ [digit_char (n mod 10)])"
  by pat_completeness auto
termination
  by (relation "measure id") auto

declare decimal.simps [simp del]

definition Sprint_int :: "go_int \<Rightarrow> string" where
  "Sprint_int n = (if sint n < 0 then CHR ''-'' # decimal (nat (- sint n)) else decimal (nat (sint n)))"

text \<open>
  \<^verbatim>\<open>fmt.Sprint\<close> of strings concatenates them: two texts that follow each other are joined.
\<close>

fun Sprint :: "piece list \<Rightarrow> piece list" where
  "Sprint (Text a # Text b # ps) = Sprint (Text (a @ b) # ps)"
| "Sprint (p # ps) = p # Sprint ps"
| "Sprint [] = []"

text \<open>
  \<^verbatim>\<open>fmt.Sprintf("%q", s)\<close> is the string as a double-quoted Go literal. For a string of
  ASCII characters, printable characters stand for themselves, the quote and the backslash
  are escaped, and the control characters have their letter escapes or \<^verbatim>\<open>\xhh\<close>. For a
  byte from 0x80 on the result depends on the UTF-8 decoding and on the library's tables
  of printable runes, which are not modelled: \<open>quote_byte\<close>, \<open>Sprintf_q\<close> and
  \<open>message_text\<close>, the text of a message, have no value there.
\<close>

definition hex_char :: "nat \<Rightarrow> char" where
  "hex_char d = ''0123456789abcdef'' ! d"

definition quote_byte :: "char \<Rightarrow> string option" where
  "quote_byte c =
    (if 128 \<le> (of_char c :: nat) then None
     else if c = CHR 0x22 then Some [CHR 0x5C, CHR 0x22]
     else if c = CHR 0x5C then Some [CHR 0x5C, CHR 0x5C]
     else if 32 \<le> (of_char c :: nat) \<and> (of_char c :: nat) < 127 then Some [c]
     else if c = CHR 0x07 then Some [CHR 0x5C, CHR ''a'']
     else if c = CHR 0x08 then Some [CHR 0x5C, CHR ''b'']
     else if c = CHR 0x0C then Some [CHR 0x5C, CHR ''f'']
     else if c = CHR 0x0A then Some [CHR 0x5C, CHR ''n'']
     else if c = CHR 0x0D then Some [CHR 0x5C, CHR ''r'']
     else if c = CHR 0x09 then Some [CHR 0x5C, CHR ''t'']
     else if c = CHR 0x0B then Some [CHR 0x5C, CHR ''v'']
     else Some [CHR 0x5C, CHR ''x'', hex_char (of_char c div 16), hex_char (of_char c mod 16)])"

fun quote_bytes :: "string \<Rightarrow> string option" where
  "quote_bytes [] = Some []"
| "quote_bytes (c # cs) =
    (case quote_byte c of
       None \<Rightarrow> None
     | Some q \<Rightarrow> map_option (\<lambda>t. q @ t) (quote_bytes cs))"

definition Sprintf_q :: "string \<Rightarrow> string option" where
  "Sprintf_q s = map_option (\<lambda>t. [CHR 0x22] @ t @ [CHR 0x22]) (quote_bytes s)"

fun message_text :: "piece list \<Rightarrow> string option" where
  "message_text [] = Some []"
| "message_text (Text s # ps) = map_option (\<lambda>t. s @ t) (message_text ps)"
| "message_text (Quoted s # ps) =
    (case Sprintf_q s of
       None \<Rightarrow> None
     | Some q \<Rightarrow> map_option (\<lambda>t. q @ t) (message_text ps))"

section \<open>The renderer\<close>

text \<open>
  \<^verbatim>\<open>String\<close> is a method on \<^verbatim>\<open>*Expr\<close> and begins with the test for nil;
  \<^verbatim>\<open>fmt.Sprintf("(%s%s)", ...)\<close> and \<^verbatim>\<open>fmt.Sprintf("(%s %s %s)", ...)\<close> concatenate.
\<close>

fun String :: "Expr \<Rightarrow> string" where
  "String nil = []"
| "String (Expr opr l r idt n) =
    (if opr = [] then
       (if l \<noteq> nil then String l
        else if idt \<noteq> [] then idt
        else Sprint_int n)
     else if String l = [] then ''('' @ opr @ String r @ '')''
     else ''('' @ String l @ '' '' @ opr @ '' '' @ String r @ '')'')"

section \<open>The evaluator\<close>

text \<open>\<^verbatim>\<open>throw\<close> panics with \<^verbatim>\<open>errors.New(fmt.Sprint(s...))\<close>; all operands are strings.\<close>

definition throw :: "piece list \<Rightarrow> panic + 'a" where
  "throw s = Inl (ErrorValue (New (Sprint s)))"

text \<open>The method \<^verbatim>\<open>error\<close> of \<^verbatim>\<open>ErrorMode\<close>.\<close>

definition ErrorMode_error :: "ErrorMode \<Rightarrow> piece list \<Rightarrow> panic + go_int" where
  "ErrorMode_error e s =
    (if e = ReturnZero then Inr 0
     else if e = ReturnError then throw s
     else Inl (StringValue ''bad error mode''))"

definition toInt :: "bool \<Rightarrow> go_int" where
  "toInt t = (if t then 1 else 0)"

text \<open>
  Go's \<^verbatim>\<open>/\<close> and \<^verbatim>\<open>%\<close> on \<^verbatim>\<open>int\<close> truncate towards zero, and the quotient of the most
  negative value by -1 wraps to that value; comparisons are signed; \<^verbatim>\<open>>>\<close> is the
  arithmetic shift. A shift count is not reduced: a count of 64 or more shifts every bit out.
\<close>

definition go_div :: "go_int \<Rightarrow> go_int \<Rightarrow> go_int" where
  "go_div a b = word_of_int (sint a sdiv sint b)"

definition go_mod :: "go_int \<Rightarrow> go_int \<Rightarrow> go_int" where
  "go_mod a b = word_of_int (sint a smod sint b)"

text \<open>The \<^verbatim>\<open>switch e.op\<close> of a node with both children, on the values of the children.\<close>

definition binary_switch :: "ErrorMode \<Rightarrow> string \<Rightarrow> go_int \<Rightarrow> go_int \<Rightarrow> panic + go_int" where
  "binary_switch errMode opr l r =
    (if opr = ''+'' then Inr (l + r)
     else if opr = ''-'' then Inr (l - r)
     else if opr = ''*'' then Inr (l * r)
     else if opr = ''/'' then
       (if r = 0 then ErrorMode_error errMode [Text ''division by zero''] else Inr (go_div l r))
     else if opr = ''%'' then
       (if r = 0 then ErrorMode_error errMode [Text ''modulo by zero''] else Inr (go_mod l r))
     else if opr = ''&'' then Inr (l AND r)
     else if opr = ''|'' then Inr (l OR r)
     else if opr = ''^'' then Inr (l XOR r)
     else if opr = ''&^'' then Inr (l AND NOT r)
     else if opr = ''>>'' then
       (if sint r < 0 then ErrorMode_error errMode [Text ''negative right shift amount'']
        else Inr (signed_drop_bit (nat (sint r)) l))
     else if opr = ''<<'' then
       (if sint r < 0 then ErrorMode_error errMode [Text ''negative left shift amount'']
        else Inr (push_bit (nat (sint r)) l))
     else if opr = ''=='' then Inr (toInt (l = r))
     else if opr = ''!='' then Inr (toInt (l \<noteq> r))
     else if opr = ''>='' then Inr (toInt (sint l \<ge> sint r))
     else if opr = ''<='' then Inr (toInt (sint l \<le> sint r))
     else if opr = ''<'' then Inr (toInt (sint l < sint r))
     else if opr = ''>'' then Inr (toInt (sint l > sint r))
     else if opr = ''||'' then Inr (toInt (l \<noteq> 0 \<or> r \<noteq> 0))
     else if opr = ''&&'' then Inr (toInt (l \<noteq> 0 \<and> r \<noteq> 0))
     else throw [Text ''unknown binary operator (can't happen) '', Text opr])"

text \<open>The \<^verbatim>\<open>switch e.op\<close> of a node with the right child only.\<close>

definition unary_switch :: "string \<Rightarrow> go_int \<Rightarrow> panic + go_int" where
  "unary_switch opr r =
    (if opr = ''+'' then Inr r
     else if opr = ''-'' then Inr (- r)
     else if opr = ''^'' then Inr (NOT r)
     else if opr = ''!'' then Inr (toInt (r = 0))
     else throw [Text ''unknown unary operator (can't happen) '', Text opr])"

fun eval :: "Expr \<Rightarrow> (string \<rightharpoonup> go_int) \<Rightarrow> ErrorMode \<Rightarrow> panic + go_int" where
  "eval nil vars errMode = Inr 0"
| "eval (Expr opr l r idt n) vars errMode =
    (if opr = [] then
       (if idt \<noteq> [] then
          (case vars idt of
             None \<Rightarrow> ErrorMode_error errMode [Text ''undefined variable '', Text idt]
           | Some v \<Rightarrow> Inr v)
        else Inr n)
     else if l \<noteq> nil \<and> r \<noteq> nil then
       (case eval l vars errMode of
          Inl x \<Rightarrow> Inl x
        | Inr lv \<Rightarrow>
           (case eval r vars errMode of
              Inl x \<Rightarrow> Inl x
            | Inr rv \<Rightarrow> binary_switch errMode opr lv rv))
     else if r \<noteq> nil then
       (case eval r vars errMode of
          Inl x \<Rightarrow> Inl x
        | Inr rv \<Rightarrow> unary_switch opr rv)
     else throw [Text ''unrecognized expression: can't happen''])"

text \<open>
  The deferred \<^verbatim>\<open>recoverer\<close>: a panic whose value is an error is stored in the result
  \<^verbatim>\<open>err\<close> and the function returns normally; any other value panics again.
\<close>

definition recoverer :: "panic \<Rightarrow> panic + error" where
  "recoverer r = (case r of ErrorValue e \<Rightarrow> Inr e | StringValue s \<Rightarrow> Inl (StringValue s))"

text \<open>
  \<^verbatim>\<open>Eval\<close> returns the pair \<^verbatim>\<open>(result, err)\<close>, where \<open>None\<close> is the nil error. When
  \<^verbatim>\<open>eval\<close> panics, \<^verbatim>\<open>result\<close> has not been assigned and is 0.
\<close>

definition Eval :: "Expr \<Rightarrow> (string \<rightharpoonup> go_int) \<Rightarrow> ErrorMode \<Rightarrow> panic + (go_int \<times> error option)" where
  "Eval e vars errMode =
    (case eval e vars errMode of
       Inr result \<Rightarrow> Inr (result, None)
     | Inl r \<Rightarrow>
        (case recoverer r of
           Inl r' \<Rightarrow> Inl r'
         | Inr err \<Rightarrow> Inr (0, Some err)))"

text \<open>The case labels of the \<^verbatim>\<open>switch\<close> for a node with both children, in the order of the source.\<close>

definition binary_operators :: "string list" where
  "binary_operators =
    [''+'', ''-'', ''*'', ''/'', ''%'', ''&'', ''|'', ''^'', ''&^'', ''>>'', ''<<'',
     ''=='', ''!='', ''>='', ''<='', ''<'', ''>'', ''||'', ''&&'']"

text \<open>The case labels of the \<^verbatim>\<open>switch\<close> for a node with the right child only.\<close>

definition unary_operators :: "string list" where
  "unary_operators = [''+'', ''-'', ''^'', ''!'']"

section \<open>The lexical layer of the parser\<close>

definition starts :: "parser \<Rightarrow> string \<Rightarrow> bool" where
  "starts p set_chars = (case p of [] \<Rightarrow> False | c # _ \<Rightarrow> c \<in> set set_chars)"

fun skip :: "parser \<Rightarrow> parser" where
  "skip [] = []"
| "skip (c # cs) =
    (if starts (c # cs) [CHR 0x20, CHR 0x09, CHR 0x0A, CHR 0x0D] then skip cs else c # cs)"

text \<open>
  \<^verbatim>\<open>next\<close> and \<^verbatim>\<open>peek\<close> return the byte and leave the parser changed: the pair is the byte
  returned and the new value of \<^verbatim>\<open>p.s\<close>. The method \<^verbatim>\<open>next\<close> is \<open>nextc\<close> here, and the
  methods \<^verbatim>\<open>op\<close> and \<^verbatim>\<open>identifier\<close> below are \<open>parser_op\<close> and \<open>parser_identifier\<close>.
\<close>

definition nextc :: "bool \<Rightarrow> parser \<Rightarrow> char \<times> parser" where
  "nextc doSkip p =
    (case (if doSkip then skip p else p) of
       [] \<Rightarrow> (eof, [])
     | c # cs \<Rightarrow> (c, cs))"

definition peek :: "bool \<Rightarrow> parser \<Rightarrow> char \<times> parser" where
  "peek doSkip p =
    (case (if doSkip then skip p else p) of
       [] \<Rightarrow> (eof, [])
     | c # cs \<Rightarrow> (c, c # cs))"

text \<open>An index expression \<^verbatim>\<open>s[i]\<close> panics when \<^verbatim>\<open>i\<close> is out of range.\<close>

definition index :: "string \<Rightarrow> nat \<Rightarrow> panic + char" where
  "index s i = (if i < length s then Inr (s ! i) else Inl (ErrorValue (IndexOutOfRange i (length s))))"

definition maybe :: "parser \<Rightarrow> string \<Rightarrow> nat" where
  "maybe p extra = (if length p \<ge> 2 \<and> p ! 1 \<in> set extra then 2 else 1)"

text \<open>
  In the case of \<^verbatim>\<open>=\<close> the source has \<^verbatim>\<open>len(p.s) >= 2 || p.s[1] == '='\<close>: the index
  expression is evaluated exactly when the length is below 2.
\<close>

definition nextOpLen :: "parser \<Rightarrow> panic + nat" where
  "nextOpLen p =
    (case p of
       [] \<Rightarrow> Inr 0
     | c # _ \<Rightarrow>
        if c \<in> set ''+-*/%^'' then Inr 1
        else if c = CHR ''<'' then Inr (maybe p ''=<'')
        else if c = CHR ''>'' then Inr (maybe p ''=>'')
        else if c = CHR ''&'' then Inr (maybe p ''&^'')
        else if c = CHR ''|'' then Inr (maybe p ''|'')
        else if c = CHR ''!'' then Inr (maybe p ''='')
        else if c = CHR ''='' then
          (if length p \<ge> 2 then Inr 2
           else case index p 1 of
                  Inl x \<Rightarrow> Inl x
                | Inr b \<Rightarrow> if b = CHR ''='' then Inr 2 else Inr 0)
        else Inr 0)"

text \<open>
  The loop over \<^verbatim>\<open>doubles\<close> compares with the slices \<^verbatim>\<open>doubles[i:i+2]\<close> for even \<^verbatim>\<open>i\<close>;
  the slice expression panics on a string of odd length.
\<close>

fun in_doubles :: "string \<Rightarrow> string \<Rightarrow> panic + bool" where
  "in_doubles opr (a # b # ds) = (if opr = [a, b] then Inr True else in_doubles opr ds)"
| "in_doubles opr [a] = Inl (ErrorValue SliceBoundsOutOfRange)"
| "in_doubles opr [] = Inr False"

text \<open>
  \<^verbatim>\<open>op\<close> returns the operator and the new \<^verbatim>\<open>p.s\<close>; the empty string means that no operator
  of this level is next, and then the parser is unchanged.
\<close>

definition parser_op :: "parser \<Rightarrow> string \<Rightarrow> string \<Rightarrow> panic + (string \<times> parser)" where
  "parser_op p singles doubles =
    (case nextOpLen p of
       Inl x \<Rightarrow> Inl x
     | Inr n \<Rightarrow>
        if n = 1 then
          (if hd (take n p) \<in> set singles then Inr (take n p, drop n p) else Inr ([], p))
        else if n = 2 then
          (case in_doubles (take n p) doubles of
             Inl x \<Rightarrow> Inl x
           | Inr found \<Rightarrow> if found then Inr (take n p, drop n p) else Inr ([], p))
        else Inr ([], p))"

definition isDigit :: "char \<Rightarrow> bool" where
  "isDigit c \<longleftrightarrow> (of_char (CHR ''0'') :: nat) \<le> of_char c \<and> (of_char c :: nat) \<le> of_char (CHR ''9'')"

definition isAlpha :: "char \<Rightarrow> bool \<Rightarrow> bool" where
  "isAlpha c digitOK \<longleftrightarrow>
    (if (of_char (CHR ''a'') :: nat) \<le> of_char c \<and> (of_char c :: nat) \<le> of_char (CHR ''z'')
        \<or> (of_char (CHR ''A'') :: nat) \<le> of_char c \<and> (of_char c :: nat) \<le> of_char (CHR ''Z'')
        \<or> c = CHR ''_''
     then True
     else digitOK \<and> isDigit c)"

definition remaining :: "parser \<Rightarrow> piece" where
  "remaining p = (if p \<noteq> [] then Quoted p else Text ''eof'')"

text \<open>
  \<^verbatim>\<open>number\<close>: the loop with its accumulator \<^verbatim>\<open>n\<close>. At the end of input \<^verbatim>\<open>peek\<close> returns
  the byte 0, which is no digit. The arithmetic is that of \<^verbatim>\<open>int\<close> and wraps.
\<close>

fun number_loop :: "go_int \<Rightarrow> parser \<Rightarrow> go_int \<times> parser" where
  "number_loop n [] = (n, [])"
| "number_loop n (c # cs) =
    (if \<not> isDigit c then (n, c # cs)
     else number_loop (10 * n + of_nat (of_char c) - of_nat (of_char (CHR ''0''))) cs)"

definition number :: "parser \<Rightarrow> go_int \<times> parser" where
  "number p = number_loop 0 p"

fun identifier_loop :: "string \<Rightarrow> parser \<Rightarrow> string \<times> parser" where
  "identifier_loop s [] = (s, [])"
| "identifier_loop s (c # cs) =
    (if \<not> isAlpha c (s \<noteq> []) then (s, c # cs)
     else identifier_loop (s @ [c]) cs)"

definition parser_identifier :: "parser \<Rightarrow> string \<times> parser" where
  "parser_identifier p = identifier_loop [] p"


section \<open>The recursive-descent parser\<close>

text \<open>
  \<^verbatim>\<open>parse\<close> receives the function of the next precedence level as its argument
  \<^verbatim>\<open>nextLevel\<close>. The functions passed are the six functions of the hierarchy, so a function
  value is one of six names and \<open>call\<close> is the call of such a value. The loop of \<^verbatim>\<open>parse\<close>
  is \<open>parse_loop\<close>, with the tree built so far as its argument. The function \<^verbatim>\<open>term\<close> of
  the source is \<open>term_p\<close> here.
\<close>

datatype level = F_orList | F_andList | F_cmpList | F_expr | F_term | F_factor

text \<open>The height of a level above \<^verbatim>\<open>factor\<close>, for the termination argument only.\<close>

fun rank :: "level \<Rightarrow> nat" where
  "rank F_factor = 0"
| "rank F_term = 1"
| "rank F_expr = 2"
| "rank F_cmpList = 3"
| "rank F_andList = 4"
| "rank F_orList = 5"

function
  parse :: "string \<Rightarrow> string \<Rightarrow> level \<Rightarrow> parser \<Rightarrow> panic + (Expr \<times> parser)" and
  parse_loop :: "string \<Rightarrow> string \<Rightarrow> level \<Rightarrow> Expr \<Rightarrow> parser \<Rightarrow> panic + (Expr \<times> parser)" and
  call :: "level \<Rightarrow> parser \<Rightarrow> panic + (Expr \<times> parser)" and
  orList :: "parser \<Rightarrow> panic + (Expr \<times> parser)" and
  andList :: "parser \<Rightarrow> panic + (Expr \<times> parser)" and
  cmpList :: "parser \<Rightarrow> panic + (Expr \<times> parser)" and
  expr :: "parser \<Rightarrow> panic + (Expr \<times> parser)" and
  term_p :: "parser \<Rightarrow> panic + (Expr \<times> parser)" and
  factor :: "parser \<Rightarrow> panic + (Expr \<times> parser)"
where
  "parse singles doubles nextLevel p =
    (case call nextLevel p of
       Inl x \<Rightarrow> Inl x
     | Inr (e, p') \<Rightarrow> parse_loop singles doubles nextLevel e p')"
| "parse_loop singles doubles nextLevel e p =
    (case peek True p of (c, p1) \<Rightarrow>
       if c = eof then Inr (e, p1)
       else case parser_op p1 singles doubles of
              Inl x \<Rightarrow> Inl x
            | Inr (opr, p2) \<Rightarrow>
               if opr = [] then Inr (e, p2)
               else case call nextLevel p2 of
                      Inl x \<Rightarrow> Inl x
                    | Inr (r, p3) \<Rightarrow> parse_loop singles doubles nextLevel (Expr opr e r [] 0) p3)"
| "call F_orList p = orList p"
| "call F_andList p = andList p"
| "call F_cmpList p = cmpList p"
| "call F_expr p = expr p"
| "call F_term p = term_p p"
| "call F_factor p = factor p"
| "orList p = parse [] ''||'' F_andList p"
| "andList p = parse [] ''&&'' F_cmpList p"
| "cmpList p = parse ''+-|^!><'' ''==!=>=<='' F_expr p"
| "expr p = parse ''+-|^!'' [] F_term p"
| "term_p p = parse ''*/%&'' ''>><<&^'' F_factor p"
| "factor p =
    (case peek True p of (c, p0) \<Rightarrow>
       if c = eof then throw [Text ''unexpected eof'']
       else if isDigit c then
         (case number p0 of (n, p1) \<Rightarrow> Inr (Expr [] nil nil [] n, p1))
       else if isAlpha c False then
         (case parser_identifier p0 of (s, p1) \<Rightarrow> Inr (Expr [] nil nil s 0, p1))
       else if starts p0 ''+-^!'' then
         (case nextc False p0 of (_, p1) \<Rightarrow>
            case factor p1 of
              Inl x \<Rightarrow> Inl x
            | Inr (r, p2) \<Rightarrow> Inr (Expr (take 1 p0) nil r [] 0, p2))
       else if c = CHR ''('' then
         (case nextc False p0 of (_, p1) \<Rightarrow>
            case orList p1 of
              Inl x \<Rightarrow> Inl x
            | Inr (e, p2) \<Rightarrow>
               case nextc True p2 of (c2, p3) \<Rightarrow>
                 if c2 \<noteq> CHR '')'' then throw [Text ''unclosed paren at '', remaining p3]
                 else Inr (e, p3))
       else throw [Text ''bad expression at '', remaining p0])"
  by pat_completeness auto

text \<open>
  \<^verbatim>\<open>Parse\<close> returns the pair \<^verbatim>\<open>(expr, err)\<close>, where \<open>None\<close> is the nil error.
  \<open>Parse_body\<close> is the body of the function: the value of the named result \<^verbatim>\<open>expr\<close> when
  the body ends (assigned once \<^verbatim>\<open>orList\<close> has returned, nil before) and whether it ended
  in a panic. The deferred \<^verbatim>\<open>recoverer\<close> then sets \<^verbatim>\<open>err\<close>.
\<close>

definition Parse_body :: "string \<Rightarrow> Expr \<times> (panic + unit)" where
  "Parse_body s =
    (case orList s of
       Inl r \<Rightarrow> (nil, Inl r)
     | Inr (e, p) \<Rightarrow>
        (case peek True p of (c, p1) \<Rightarrow>
           if c \<noteq> eof then (e, throw [Text ''syntax error at '', remaining p1])
           else (e, Inr ())))"

definition Parse :: "string \<Rightarrow> panic + (Expr \<times> error option)" where
  "Parse s =
    (case Parse_body s of
       (e, Inr u) \<Rightarrow> Inr (e, None)
     | (e, Inl r) \<Rightarrow>
        (case recoverer r of
           Inl r' \<Rightarrow> Inl r'
         | Inr err \<Rightarrow> Inr (e, Some err)))"

section \<open>Auxiliary notions for the proofs\<close>

text \<open>
  The pairs \<^verbatim>\<open>(singles, doubles)\<close> of the five calls of \<^verbatim>\<open>parse\<close>:
  in \<^verbatim>\<open>orList\<close>, \<^verbatim>\<open>andList\<close>, \<^verbatim>\<open>cmpList\<close>, \<^verbatim>\<open>expr\<close> and \<^verbatim>\<open>term\<close>.
\<close>

definition level_ops :: "(string \<times> string) list" where
  "level_ops = [([], ''||''), ([], ''&&''), (''+-|^!><'', ''==!=>=<=''), (''+-|^!'', []), (''*/%&'', ''>><<&^'')]"

text \<open>The characters that \<^verbatim>\<open>skip\<close> passes over.\<close>

definition isSpace :: "char \<Rightarrow> bool" where
  "isSpace c \<longleftrightarrow> c \<in> set [CHR 0x20, CHR 0x09, CHR 0x0A, CHR 0x0D]"

text \<open>One round of the loop of \<^verbatim>\<open>number\<close>.\<close>

definition digit_step :: "go_int \<Rightarrow> char \<Rightarrow> go_int" where
  "digit_step n c = 10 * n + of_nat (of_char c) - of_nat (of_char (CHR ''0''))"

text \<open>
  Balanced parentheses: \<open>balanced d s\<close> holds when, starting at nesting depth \<open>d\<close>, no
  closing parenthesis of \<open>s\<close> comes without an open one and the depth at the end is 0. A
  string is neutral when it can be dropped in front of any string without a change of that.
\<close>

fun balanced :: "nat \<Rightarrow> string \<Rightarrow> bool" where
  "balanced d [] = (d = 0)"
| "balanced d (c # cs) =
    (if c = CHR ''('' then balanced (Suc d) cs
     else if c = CHR '')'' then (d \<noteq> 0 \<and> balanced (d - 1) cs)
     else balanced d cs)"

definition neutral :: "string \<Rightarrow> bool" where
  "neutral u \<longleftrightarrow> (\<forall>d rest. balanced d (u @ rest) = balanced d rest)"

definition no_paren :: "char \<Rightarrow> bool" where
  "no_paren c \<longleftrightarrow> c \<noteq> CHR ''('' \<and> c \<noteq> CHR '')''"

definition consumes_neutral :: "parser \<Rightarrow> Expr \<Rightarrow> parser \<Rightarrow> bool" where
  "consumes_neutral p e p' \<longleftrightarrow> (\<exists>u. p = u @ p' \<and> neutral u)"

text \<open>
  The integer literals of an input: \<open>literals_in_range s\<close> reads \<open>s\<close> from the left, takes a
  maximal run of digits for a literal, passes over an identifier as a whole, and holds
  when every literal denotes a number below \<open>2 ^ 63\<close>. \<open>nonneg_leaves e\<close> holds when every
  node of \<open>e\<close> that the evaluator takes for a number (no operator, no identifier) has a
  value that is not negative.
\<close>

definition decimal_value :: "string \<Rightarrow> nat" where
  "decimal_value ds = foldl (\<lambda>a c. 10 * a + (of_char c - of_char (CHR ''0''))) 0 ds"

function literals_in_range :: "string \<Rightarrow> bool" where
  "literals_in_range [] = True"
| "literals_in_range (c # cs) =
    (if isDigit c then
       decimal_value (takeWhile isDigit (c # cs)) < 2 ^ 63 \<and> literals_in_range (dropWhile isDigit cs)
     else if isAlpha c False then literals_in_range (dropWhile (\<lambda>c. isAlpha c True) cs)
     else literals_in_range cs)"
  by pat_completeness auto
termination
  by (relation "measure length") (auto simp: length_dropWhile_le less_Suc_eq_le)

fun nonneg_leaves :: "Expr \<Rightarrow> bool" where
  "nonneg_leaves nil = True"
| "nonneg_leaves (Expr opr l r idt n) =
    ((if opr = [] \<and> idt = [] then 0 \<le> sint n else True) \<and> nonneg_leaves l \<and> nonneg_leaves r)"


definition keeps_literals :: "parser \<Rightarrow> Expr \<Rightarrow> parser \<Rightarrow> bool" where
  "keeps_literals p e p' \<longleftrightarrow> (literals_in_range p \<longrightarrow> nonneg_leaves e \<and> literals_in_range p')"

text \<open>
  The shape of the trees that the parser builds: \<open>parser_tree e\<close> holds when \<open>e\<close> is a
  numeric leaf, an identifier leaf with a well-formed name, a node with a unary operator and
  the right child only, or a node with both children and an operator that \<^verbatim>\<open>op\<close> can return.
  \<open>stop_rest\<close> describes what follows a rendered subtree inside a rendering; \<open>closes\<close> the
  inputs on which every loop of \<^verbatim>\<open>parse\<close> returns at once; \<open>accepts\<close> whether \<^verbatim>\<open>op\<close> with the
  given singles and doubles returns the operator.
\<close>

definition valid_ident :: "string \<Rightarrow> bool" where
  "valid_ident s \<longleftrightarrow> s \<noteq> [] \<and> isAlpha (hd s) False \<and> list_all (\<lambda>c. isAlpha c True) (tl s)"

fun parser_tree :: "Expr \<Rightarrow> bool" where
  "parser_tree nil = False"
| "parser_tree (Expr opr l r idt n) =
    (if opr = [] then l = nil \<and> r = nil \<and> (if idt = [] then True else valid_ident idt \<and> n = 0)
     else idt = [] \<and> n = 0 \<and> parser_tree r \<and>
       (if l = nil then opr \<in> set unary_operators
        else parser_tree l \<and> opr \<in> set (''!'' # binary_operators)))"

definition stop_rest :: "string \<Rightarrow> bool" where
  "stop_rest rest \<longleftrightarrow> (case rest of [] \<Rightarrow> True | c # _ \<Rightarrow> c = CHR '' '' \<or> c = CHR '')'')"

definition closes :: "parser \<Rightarrow> bool" where
  "closes q \<longleftrightarrow> (case q of [] \<Rightarrow> True | c # _ \<Rightarrow> c = CHR '')'')"

definition accepts :: "string \<Rightarrow> string \<Rightarrow> string \<Rightarrow> bool" where
  "accepts singles doubles opr \<longleftrightarrow>
     (length opr = 1 \<and> hd opr \<in> set singles) \<or> (length opr = 2 \<and> in_doubles opr doubles = Inr True)"

text \<open>
  The grammar of the specification has five levels of binary operators, from the lowest
  precedence to the highest: 1 for \<^verbatim>\<open>||\<close>, 2 for \<^verbatim>\<open>&&\<close>, 3 for the comparisons, 4 for
  \<^verbatim>\<open>+ - | ^\<close> and 5 for \<^verbatim>\<open>* / % << >> & &^\<close>; each level is left-associative and folds
  its operators from left to right. \<open>grammar_level\<close> is the level of an operator (0 for a
  string that is no binary operator of the grammar). A chain is an operand followed by
  pairs of an operator and an operand, and \<open>render_ops\<close> writes the pairs with one blank
  around each operator. \<open>grammar_tree k t ps\<close> is the tree that the grammar's level \<open>k\<close>
  gives to the operand \<open>t\<close> followed by the longest prefix of \<open>ps\<close> whose operators are of
  level \<open>k\<close> or bind tighter (\<open>binds k\<close>): the operands of level \<open>k\<close> are trees of level
  \<open>k + 1\<close>, and \<open>grammar_fold\<close> folds them to the left with the operators of level \<open>k\<close>.
  Level 6 is the operand itself. \<open>chain ps\<close> holds when every operator of \<open>ps\<close> is one of
  the nineteen binary operators and every operand is a tree of the parser without a negative
  leaf, so that \<^verbatim>\<open>String\<close> renders it as a literal, an identifier or a parenthesised
  expression.
\<close>

definition grammar_level :: "string \<Rightarrow> nat" where
  "grammar_level opr =
    (if opr = ''||'' then 1
     else if opr = ''&&'' then 2
     else if opr \<in> set [''=='', ''!='', ''>'', ''<'', ''>='', ''<=''] then 3
     else if opr \<in> set [''+'', ''-'', ''|'', ''^''] then 4
     else if opr \<in> set [''*'', ''/'', ''%'', ''<<'', ''>>'', ''&'', ''&^''] then 5
     else 0)"

definition binds :: "nat \<Rightarrow> string \<times> Expr \<Rightarrow> bool" where
  "binds k = (\<lambda>(opr, a). k \<le> grammar_level opr)"

function
  grammar_tree :: "nat \<Rightarrow> Expr \<Rightarrow> (string \<times> Expr) list \<Rightarrow> Expr" and
  grammar_fold :: "nat \<Rightarrow> Expr \<Rightarrow> (string \<times> Expr) list \<Rightarrow> Expr"
where
  "grammar_tree k t ps =
    (if 5 < k then t
     else grammar_fold k (grammar_tree (Suc k) t ps) (dropWhile (binds (Suc k)) ps))"
| "grammar_fold k e [] = e"
| "grammar_fold k e ((opr, a) # ps) =
    (if grammar_level opr = k
     then grammar_fold k (Expr opr e (grammar_tree (Suc k) a ps) [] 0) (dropWhile (binds (Suc k)) ps)
     else e)"
  by pat_completeness auto
termination
  by (relation "inv_image (less_than <*lex*> less_than)
        (\<lambda>x. case x of
           Inl (k, t, ps) \<Rightarrow> (2 * (6 - k) + 1, length ps)
         | Inr (k, e, ps) \<Rightarrow> (2 * (6 - k), length ps))")
    (auto simp: grammar_level_def length_dropWhile_le less_Suc_eq_le)

declare grammar_tree.simps [simp del]

fun render_ops :: "(string \<times> Expr) list \<Rightarrow> string" where
  "render_ops [] = []"
| "render_ops ((opr, a) # ps) = CHR '' '' # opr @ CHR '' '' # String a @ render_ops ps"

definition chain :: "(string \<times> Expr) list \<Rightarrow> bool" where
  "chain ps \<longleftrightarrow> (\<forall>(opr, a)\<in>set ps. opr \<in> set binary_operators \<and> parser_tree a \<and> nonneg_leaves a)"

text \<open>
  \<open>switch_operators e\<close> holds when every node of \<open>e\<close> with both children has one of the
  operators of the evaluator's switch. \<open>failure_messages vars\<close> are the messages of the four
  failures of an evaluation with the bindings \<open>vars\<close>.
\<close>

fun switch_operators :: "Expr \<Rightarrow> bool" where
  "switch_operators nil = True"
| "switch_operators (Expr opr l r idt n) =
    ((if opr \<noteq> [] \<and> l \<noteq> nil \<and> r \<noteq> nil then opr \<in> set binary_operators else True)
     \<and> switch_operators l \<and> switch_operators r)"

definition failure_messages :: "(string \<rightharpoonup> go_int) \<Rightarrow> piece list set" where
  "failure_messages vars =
     {[Text ''division by zero''], [Text ''modulo by zero''], [Text ''negative left shift amount''],
      [Text ''negative right shift amount'']}
     \<union> {[Text (''undefined variable '' @ name)] | name. vars name = None}"

section \<open>Termination of the parser\<close>


lemma length_skip: "length (skip p) \<le> length p"
  by (induction p) auto

lemma peek_length: "peek b p = (c, p1) \<Longrightarrow> length p1 \<le> length p"
  using length_skip [of p] by (auto simp: peek_def split: list.splits if_splits)

lemma peek_not_eof: "peek b p = (c, p1) \<Longrightarrow> c \<noteq> eof \<Longrightarrow> p1 \<noteq> []"
  by (auto simp: peek_def split: list.splits if_splits)

lemma nextc_length: "nextc b p = (c, p1) \<Longrightarrow> length p1 \<le> length p"
  using length_skip [of p] by (auto simp: nextc_def split: list.splits if_splits)

lemma nextc_length_less: "nextc False p = (c, p1) \<Longrightarrow> p \<noteq> [] \<Longrightarrow> length p1 < length p"
  by (auto simp: nextc_def split: list.splits if_splits)

lemma nextOpLen_pos: "nextOpLen p = Inr n \<Longrightarrow> n \<le> 2"
  by (auto simp: nextOpLen_def maybe_def index_def split: list.splits if_splits)

lemma parser_op_length:
  "parser_op p singles doubles = Inr (opr, p2) \<Longrightarrow> p \<noteq> [] \<Longrightarrow>
     length p2 \<le> length p \<and> (opr \<noteq> [] \<longrightarrow> length p2 < length p)"
  by (auto simp: parser_op_def split: sum.splits if_splits)

lemma number_loop_length: "number_loop n p = (m, p1) \<Longrightarrow> length p1 \<le> length p"
  by (induction n p rule: number_loop.induct) (auto split: if_splits)

lemma identifier_loop_length: "identifier_loop s p = (t, p1) \<Longrightarrow> length p1 \<le> length p"
  by (induction s p rule: identifier_loop.induct) (auto split: if_splits)

abbreviation "pdom \<equiv> parse_parse_loop_call_orList_andList_cmpList_expr_term_p_factor_dom"

lemma parse_length_dom:
  "pdom (Inl (Inl (Inl (singles, doubles, nextLevel, p)))) \<Longrightarrow>
     \<forall>e' p'. parse singles doubles nextLevel p = Inr (e', p') \<longrightarrow> length p' \<le> length p"
  "pdom (Inl (Inl (Inr (singles, doubles, nextLevel, e, p)))) \<Longrightarrow>
     \<forall>e' p'. parse_loop singles doubles nextLevel e p = Inr (e', p') \<longrightarrow> length p' \<le> length p"
  "pdom (Inl (Inr (Inl (nextLevel, p)))) \<Longrightarrow>
     \<forall>e' p'. call nextLevel p = Inr (e', p') \<longrightarrow> length p' \<le> length p"
  "pdom (Inl (Inr (Inr p))) \<Longrightarrow>
     \<forall>e' p'. orList p = Inr (e', p') \<longrightarrow> length p' \<le> length p"
  "pdom (Inr (Inl (Inl p))) \<Longrightarrow>
     \<forall>e' p'. andList p = Inr (e', p') \<longrightarrow> length p' \<le> length p"
  "pdom (Inr (Inl (Inr p))) \<Longrightarrow>
     \<forall>e' p'. cmpList p = Inr (e', p') \<longrightarrow> length p' \<le> length p"
  "pdom (Inr (Inr (Inl p))) \<Longrightarrow>
     \<forall>e' p'. expr p = Inr (e', p') \<longrightarrow> length p' \<le> length p"
  "pdom (Inr (Inr (Inr (Inl p)))) \<Longrightarrow>
     \<forall>e' p'. term_p p = Inr (e', p') \<longrightarrow> length p' \<le> length p"
  "pdom (Inr (Inr (Inr (Inr p)))) \<Longrightarrow>
     \<forall>e' p'. factor p = Inr (e', p') \<longrightarrow> length p' \<le> length p"
proof (induct rule: parse_parse_loop_call_orList_andList_cmpList_expr_term_p_factor.pinduct)
  case (1 singles doubles nextLevel p)
  then show ?case
    by (fastforce simp: parse.psimps split: sum.splits prod.splits)
next
  case (2 singles doubles nextLevel e p)
  show ?case
  proof (intro allI impI)
    fix e' p'
    assume r: "parse_loop singles doubles nextLevel e p = Inr (e', p')"
    obtain c p1 where pk: "peek True p = (c, p1)" by (cases "peek True p")
    have l1: "length p1 \<le> length p" using pk by (rule peek_length)
    show "length p' \<le> length p"
    proof (cases "c = eof")
      case True
      with r pk l1 "2.hyps"(1) show ?thesis by (simp add: parse_loop.psimps)
    next
      case False
      then have ne: "p1 \<noteq> []" using pk peek_not_eof by blast
      from r pk False "2.hyps"(1) obtain opr p2 where
        o: "parser_op p1 singles doubles = Inr (opr, p2)"
        by (auto simp: parse_loop.psimps split: sum.splits)
      have l2: "length p2 \<le> length p1" using parser_op_length [OF o ne] by simp
      show ?thesis
      proof (cases "opr = []")
        case True
        with r pk False o "2.hyps"(1) l1 l2 show ?thesis by (simp add: parse_loop.psimps)
      next
        case nonempty: False
        from r pk False o nonempty "2.hyps"(1) obtain r' p3 where
          c3: "call nextLevel p2 = Inr (r', p3)"
          by (auto simp: parse_loop.psimps split: sum.splits)
        have l3: "length p3 \<le> length p2"
          using "2.hyps"(2) [OF pk [symmetric] False o refl nonempty] c3 by simp
        have "parse_loop singles doubles nextLevel (Expr opr e r' [] 0) p3 = Inr (e', p')"
          using r pk False o nonempty c3 "2.hyps"(1) by (simp add: parse_loop.psimps)
        then have "length p' \<le> length p3"
          using "2.hyps"(3) [OF pk [symmetric] False o refl nonempty c3 refl] by simp
        with l1 l2 l3 show ?thesis by simp
      qed
    qed
  qed
next
  case (14 p)
  show ?case
  proof (intro allI impI)
    fix e' p'
    assume r: "factor p = Inr (e', p')"
    obtain c p0 where pk: "peek True p = (c, p0)" by (cases "peek True p")
    have l0: "length p0 \<le> length p" using pk by (rule peek_length)
    have fs: "factor p = (case peek True p of (c, p0) \<Rightarrow>
       if c = eof then throw [Text ''unexpected eof'']
       else if isDigit c then
         (case number p0 of (n, p1) \<Rightarrow> Inr (Expr [] nil nil [] n, p1))
       else if isAlpha c False then
         (case parser_identifier p0 of (s, p1) \<Rightarrow> Inr (Expr [] nil nil s 0, p1))
       else if starts p0 ''+-^!'' then
         (case nextc False p0 of (_, p1) \<Rightarrow>
            case factor p1 of
              Inl x \<Rightarrow> Inl x
            | Inr (r, p2) \<Rightarrow> Inr (Expr (take 1 p0) nil r [] 0, p2))
       else if c = CHR ''('' then
         (case nextc False p0 of (_, p1) \<Rightarrow>
            case orList p1 of
              Inl x \<Rightarrow> Inl x
            | Inr (e, p2) \<Rightarrow>
               case nextc True p2 of (c2, p3) \<Rightarrow>
                 if c2 \<noteq> CHR '')'' then throw [Text ''unclosed paren at '', remaining p3]
                 else Inr (e, p3))
       else throw [Text ''bad expression at '', remaining p0])"
      using "14.hyps"(1) by (rule factor.psimps)
    show "length p' \<le> length p"
    proof (cases "c = eof")
      case True
      with r pk show ?thesis unfolding fs by (simp add: throw_def)
    next
      case ne: False
      then have p0ne: "p0 \<noteq> []" using pk peek_not_eof by blast
      show ?thesis
      proof (cases "isDigit c")
        case True
        with r pk ne l0 show ?thesis unfolding fs
          by (auto simp: number_def split: prod.splits dest!: number_loop_length)
      next
        case nd: False
        show ?thesis
        proof (cases "isAlpha c False")
          case True
          with r pk ne nd l0 show ?thesis unfolding fs
            by (auto simp: parser_identifier_def split: prod.splits dest!: identifier_loop_length)
        next
          case na: False
          obtain c1 p1 where nx: "nextc False p0 = (c1, p1)" by (cases "nextc False p0")
          have l1: "length p1 < length p0" using nextc_length_less [OF nx p0ne] .
          show ?thesis
          proof (cases "starts p0 ''+-^!''")
            case True
            from r pk ne nd na True nx obtain r' where
              f1: "factor p1 = Inr (r', p')"
              unfolding fs by (auto split: sum.splits)
            have "length p' \<le> length p1"
              using "14.hyps"(2) [OF pk [symmetric] ne nd na True nx [symmetric]] f1 by simp
            with l0 l1 show ?thesis by simp
          next
            case ns: False
            show ?thesis
            proof (cases "c = CHR ''(''")
              case True
              from r pk ne nd na ns True nx obtain e2 p2 where
                o1: "orList p1 = Inr (e2, p2)"
                unfolding fs by (auto split: sum.splits)
              have l2: "length p2 \<le> length p1"
                using "14.hyps"(3) [OF pk [symmetric] ne nd na ns True nx [symmetric]] o1 by simp
              obtain c2 p3 where n3: "nextc True p2 = (c2, p3)" by (cases "nextc True p2")
              have l3: "length p3 \<le> length p2" using n3 by (rule nextc_length)
              from r pk ne nd na ns True nx o1 n3 have "p' = p3"
                unfolding fs by (auto simp: throw_def split: if_splits)
              with l0 l1 l2 l3 show ?thesis by simp
            next
              case False
              with r pk ne nd na ns show ?thesis unfolding fs by (simp add: throw_def)
            qed
          qed
        qed
      qed
    qed
  qed
qed (simp_all add: call.psimps orList.psimps andList.psimps cmpList.psimps expr.psimps term_p.psimps)


termination parse
proof (relation "inv_image (less_than <*lex*> less_than)
    (\<lambda>x. case x of
        Inl (Inl (Inl (singles, doubles, nextLevel, p))) \<Rightarrow> (length p, 4 * rank nextLevel + 3)
      | Inl (Inl (Inr (singles, doubles, nextLevel, e, p))) \<Rightarrow> (length p, 4 * rank nextLevel + 2)
      | Inl (Inr (Inl (nextLevel, p))) \<Rightarrow> (length p, 4 * rank nextLevel + 1)
      | Inl (Inr (Inr p)) \<Rightarrow> (length p, 20)
      | Inr (Inl (Inl p)) \<Rightarrow> (length p, 16)
      | Inr (Inl (Inr p)) \<Rightarrow> (length p, 12)
      | Inr (Inr (Inl p)) \<Rightarrow> (length p, 8)
      | Inr (Inr (Inr (Inl p))) \<Rightarrow> (length p, 4)
      | Inr (Inr (Inr (Inr p))) \<Rightarrow> (length p, 0))", goal_cases)
  case 1
  show ?case by (intro wf_inv_image wf_lex_prod wf_less_than)
next
  case (2 singles doubles nextLevel p)
  show ?case by simp
next
  case (3 singles doubles nextLevel p b x y)
  then show ?case using parse_length_dom(3) [of nextLevel p] by auto
next
  case (4 singles doubles nextLevel e p x y b xa ya)
  then have "y \<noteq> []" using peek_not_eof [of True p x y] by simp
  with 4 show ?case
    using peek_length [of True p x y] parser_op_length [of y singles doubles xa ya] by auto
next
  case (5 singles doubles nextLevel e p x y b xa ya ba xb yb)
  then have "y \<noteq> []" using peek_not_eof [of True p x y] by simp
  with 5 show ?case
    using peek_length [of True p x y] parser_op_length [of y singles doubles xa ya]
      parse_length_dom(3) [of nextLevel ya] by auto
next
  case (17 p x y xa ya)
  then have "y \<noteq> []" using peek_not_eof [of True p x y] by simp
  with 17 show ?case
    using peek_length [of True p x y] nextc_length_less [of y xa ya] by auto
next
  case (18 p x y xa ya)
  then have "y \<noteq> []" using peek_not_eof [of True p x y] by simp
  with 18 show ?case
    using peek_length [of True p x y] nextc_length_less [of y xa ya] by auto
qed simp_all

declare parse.simps [simp del] parse_loop.simps [simp del] factor.simps [simp del]
declare orList.simps [simp del] andList.simps [simp del] cmpList.simps [simp del]
declare expr.simps [simp del] term_p.simps [simp del]


section \<open>An induction principle for relations between input, tree and rest\<close>

text \<open>
  A relation \<open>P p e p'\<close> between the input \<open>p\<close> of a parsing function, the tree \<open>e\<close>
  it returns and the input \<open>p'\<close> it leaves holds for every function of the hierarchy once
  it is established by the two kinds of leaf, carried through a unary operator, a
  parenthesis and the skipping of blanks, and extended by one round of the loop of
  \<^verbatim>\<open>parse\<close>.
\<close>

lemma parser_op_empty: "parser_op p singles doubles = Inr ([], p2) \<Longrightarrow> p2 = p"
  by (cases p) (auto simp: parser_op_def nextOpLen_def split: sum.splits if_splits)

lemma parser_rel_induct:
  fixes P :: "parser \<Rightarrow> Expr \<Rightarrow> parser \<Rightarrow> bool"
  assumes num: "\<And>p c p0 n p1. peek True p = (c, p0) \<Longrightarrow> c \<noteq> eof \<Longrightarrow> isDigit c \<Longrightarrow>
      number p0 = (n, p1) \<Longrightarrow> P p (Expr [] nil nil [] n) p1"
    and idt: "\<And>p c p0 s p1. peek True p = (c, p0) \<Longrightarrow> c \<noteq> eof \<Longrightarrow> \<not> isDigit c \<Longrightarrow>
      isAlpha c False \<Longrightarrow> parser_identifier p0 = (s, p1) \<Longrightarrow> P p (Expr [] nil nil s 0) p1"
    and una: "\<And>p c p0 c1 p1 r p2. peek True p = (c, p0) \<Longrightarrow> c \<noteq> eof \<Longrightarrow> \<not> isDigit c \<Longrightarrow>
      \<not> isAlpha c False \<Longrightarrow> starts p0 ''+-^!'' \<Longrightarrow> nextc False p0 = (c1, p1) \<Longrightarrow>
      P p1 r p2 \<Longrightarrow> P p (Expr (take 1 p0) nil r [] 0) p2"
    and par: "\<And>p p0 c1 p1 e p2 p3. peek True p = (CHR ''('', p0) \<Longrightarrow>
      nextc False p0 = (c1, p1) \<Longrightarrow> P p1 e p2 \<Longrightarrow> nextc True p2 = (CHR '')'', p3) \<Longrightarrow> P p e p3"
    and stop: "\<And>p0 e p c p1. P p0 e p \<Longrightarrow> peek True p = (c, p1) \<Longrightarrow> P p0 e p1"
    and bin: "\<And>p0 e p c p1 singles doubles opr p2 r p3. P p0 e p \<Longrightarrow> peek True p = (c, p1) \<Longrightarrow>
      c \<noteq> eof \<Longrightarrow> (singles, doubles) \<in> set level_ops \<Longrightarrow>
      parser_op p1 singles doubles = Inr (opr, p2) \<Longrightarrow> opr \<noteq> [] \<Longrightarrow> P p2 r p3 \<Longrightarrow>
      P p0 (Expr opr e r [] 0) p3"
  shows "(singles, doubles) \<in> set level_ops \<longrightarrow>
           (\<forall>e' p'. parse singles doubles nextLevel p = Inr (e', p') \<longrightarrow> P p e' p')"
    and "(singles, doubles) \<in> set level_ops \<longrightarrow>
           (\<forall>p0 e' p'. P p0 e p \<longrightarrow> parse_loop singles doubles nextLevel e p = Inr (e', p') \<longrightarrow> P p0 e' p')"
    and "\<forall>e' p'. call nextLevel p = Inr (e', p') \<longrightarrow> P p e' p'"
    and "\<forall>e' p'. orList p = Inr (e', p') \<longrightarrow> P p e' p'"
    and "\<forall>e' p'. andList p = Inr (e', p') \<longrightarrow> P p e' p'"
    and "\<forall>e' p'. cmpList p = Inr (e', p') \<longrightarrow> P p e' p'"
    and "\<forall>e' p'. expr p = Inr (e', p') \<longrightarrow> P p e' p'"
    and "\<forall>e' p'. term_p p = Inr (e', p') \<longrightarrow> P p e' p'"
    and "\<forall>e' p'. factor p = Inr (e', p') \<longrightarrow> P p e' p'"
proof (induct singles doubles nextLevel p and singles doubles nextLevel e p and nextLevel p
    and p and p and p and p and p and p
    rule: parse_parse_loop_call_orList_andList_cmpList_expr_term_p_factor.induct)
  case (1 singles doubles nextLevel p)
  show ?case
  proof (intro impI allI)
    fix e' p'
    assume lv: "(singles, doubles) \<in> set level_ops"
      and r: "parse singles doubles nextLevel p = Inr (e', p')"
    from r obtain e1 p1 where c: "call nextLevel p = Inr (e1, p1)"
      and l: "parse_loop singles doubles nextLevel e1 p1 = Inr (e', p')"
      by (auto simp: parse.simps split: sum.splits)
    have "P p e1 p1" using "1.hyps"(1) c by blast
    then show "P p e' p'" using "1.hyps"(2) [OF c refl] lv l by blast
  qed
next
  case (2 singles doubles nextLevel e p)
  show ?case
  proof (intro impI allI)
    fix p0 e' p'
    assume lv: "(singles, doubles) \<in> set level_ops"
      and pe: "P p0 e p"
      and r: "parse_loop singles doubles nextLevel e p = Inr (e', p')"
    obtain c p1 where pk: "peek True p = (c, p1)" by (cases "peek True p")
    have st: "P p0 e p1" using stop [OF pe pk] .
    show "P p0 e' p'"
    proof (cases "c = eof")
      case True
      with r pk st show ?thesis by (simp add: parse_loop.simps)
    next
      case ne: False
      from r pk ne obtain opr p2 where o: "parser_op p1 singles doubles = Inr (opr, p2)"
        by (auto simp: parse_loop.simps split: sum.splits)
      show ?thesis
      proof (cases "opr = []")
        case True
        then have "p2 = p1" using o parser_op_empty by blast
        with True r pk ne o st show ?thesis by (simp add: parse_loop.simps)
      next
        case nonempty: False
        from r pk ne o nonempty obtain r' p3 where c3: "call nextLevel p2 = Inr (r', p3)"
          and l: "parse_loop singles doubles nextLevel (Expr opr e r' [] 0) p3 = Inr (e', p')"
          by (auto simp: parse_loop.simps split: sum.splits)
        have "P p2 r' p3"
          using "2.hyps"(1) [OF pk [symmetric] ne o refl nonempty] c3 by blast
        then have "P p0 (Expr opr e r' [] 0) p3"
          using bin [OF pe pk ne lv o nonempty] by blast
        then show ?thesis
          using "2.hyps"(2) [OF pk [symmetric] ne o refl nonempty c3 refl] lv l by blast
      qed
    qed
  qed
next
  case (9 p)
  then show ?case by (simp add: orList.simps level_ops_def)
next
  case (10 p)
  then show ?case by (simp add: andList.simps level_ops_def)
next
  case (11 p)
  then show ?case by (simp add: cmpList.simps level_ops_def)
next
  case (12 p)
  then show ?case by (simp add: expr.simps level_ops_def)
next
  case (13 p)
  then show ?case by (simp add: term_p.simps level_ops_def)
next
  case (14 p)
  show ?case
  proof (intro allI impI)
    fix e' p'
    assume r: "factor p = Inr (e', p')"
    obtain c p0 where pk: "peek True p = (c, p0)" by (cases "peek True p")
    show "P p e' p'"
    proof (cases "c = eof")
      case True
      with r pk show ?thesis by (simp add: factor.simps throw_def)
    next
      case ne: False
      show ?thesis
      proof (cases "isDigit c")
        case True
        with r pk ne num [OF pk ne True] show ?thesis
          by (auto simp: factor.simps split: prod.splits)
      next
        case nd: False
        show ?thesis
        proof (cases "isAlpha c False")
          case True
          with r pk ne nd idt [OF pk ne nd True] show ?thesis
            by (auto simp: factor.simps split: prod.splits)
        next
          case na: False
          obtain c1 p1 where nx: "nextc False p0 = (c1, p1)" by (cases "nextc False p0")
          show ?thesis
          proof (cases "starts p0 ''+-^!''")
            case True
            from r pk ne nd na True nx obtain r' where
              f1: "factor p1 = Inr (r', p')" and e': "e' = Expr (take 1 p0) nil r' [] 0"
              by (auto simp: factor.simps split: sum.splits)
            have "P p1 r' p'"
              using "14.hyps"(1) [OF pk [symmetric] ne nd na True nx [symmetric]] f1 by blast
            then show ?thesis using una [OF pk ne nd na True nx] e' by blast
          next
            case ns: False
            show ?thesis
            proof (cases "c = CHR ''(''")
              case True
              from r pk ne nd na ns True nx obtain e2 p2 where
                o1: "orList p1 = Inr (e2, p2)"
                by (auto simp: factor.simps split: sum.splits)
              obtain c2 p3 where n3: "nextc True p2 = (c2, p3)" by (cases "nextc True p2")
              from r pk ne nd na ns True nx o1 n3 have eq: "c2 = CHR '')''" "e' = e2" "p' = p3"
                by (auto simp: factor.simps throw_def split: if_splits)
              have "P p1 e2 p2"
                using "14.hyps"(2) [OF pk [symmetric] ne nd na ns True nx [symmetric]] o1 by blast
              then show ?thesis using par [OF _ nx _ _] pk True n3 eq by blast
            next
              case False
              with r pk ne nd na ns show ?thesis by (simp add: factor.simps throw_def)
            qed
          qed
        qed
      qed
    qed
  qed
qed simp_all


subsection \<open>The lexical functions as takeWhile and dropWhile\<close>

lemma skip_dropWhile: "skip p = dropWhile isSpace p"
  by (induction p) (auto simp: starts_def isSpace_def)

lemma skip_split: "takeWhile isSpace p @ skip p = p"
  by (simp add: skip_dropWhile)

lemma peek_True_eq: "peek True p = (c, p0) \<Longrightarrow> p0 = skip p \<and> (c = eof \<or> (p0 \<noteq> [] \<and> c = hd p0))"
  by (cases "skip p") (auto simp: peek_def)

lemma peek_True_not_eof:
  assumes "peek True p = (c, p0)" and "c \<noteq> eof"
  shows "p0 = skip p" and "p0 \<noteq> []" and "c = hd p0"
  using assms by (cases "skip p"; auto simp: peek_def)+

lemma peek_True_Cons:
  assumes "peek True p = (c, p0)" and "c \<noteq> eof"
  obtains cs where "p0 = c # cs" and "skip p = c # cs"
  using assms by (cases "skip p") (auto simp: peek_def)

lemma isSpace_not_digit_alpha: "isSpace c \<Longrightarrow> \<not> isDigit c \<and> \<not> isAlpha c b"
  by (auto simp: isSpace_def isDigit_def isAlpha_def)

lemma nextc_False_eq: "nextc False p0 = (c1, p1) \<Longrightarrow> p0 \<noteq> [] \<Longrightarrow> p0 = c1 # p1"
  by (auto simp: nextc_def split: list.splits)

lemma nextc_True_eq: "nextc True p = (c, p1) \<Longrightarrow> c \<noteq> eof \<Longrightarrow> skip p = c # p1"
  by (cases "skip p") (auto simp: nextc_def)

lemma number_loop_eq:
  "number_loop n p = (foldl digit_step n (takeWhile isDigit p), dropWhile isDigit p)"
  by (induction n p rule: number_loop.induct) (auto simp: digit_step_def)

lemma identifier_loop_eq:
  "s \<noteq> [] \<Longrightarrow> identifier_loop s p =
     (s @ takeWhile (\<lambda>c. isAlpha c True) p, dropWhile (\<lambda>c. isAlpha c True) p)"
  by (induction s p rule: identifier_loop.induct) auto

lemma parser_identifier_eq:
  "p \<noteq> [] \<Longrightarrow> isAlpha (hd p) False \<Longrightarrow> parser_identifier p =
     (hd p # takeWhile (\<lambda>c. isAlpha c True) (tl p), dropWhile (\<lambda>c. isAlpha c True) (tl p))"
  by (cases p) (auto simp: parser_identifier_def identifier_loop_eq)

lemma in_doubles_level:
  "(singles, doubles) \<in> set level_ops \<Longrightarrow> in_doubles opr doubles = Inr found \<Longrightarrow>
     found \<longleftrightarrow> opr \<in> set [''||'', ''&&'', ''=='', ''!='', ''>='', ''<='', ''>>'', ''<<'', ''&^''] \<and>
       in_doubles opr doubles = Inr True"
  by (auto simp: level_ops_def split: if_splits)

lemma parser_op_consumed:
  assumes "parser_op p singles doubles = Inr (opr, p2)" and "opr \<noteq> []"
    and "(singles, doubles) \<in> set level_ops"
  shows "p = opr @ p2 \<and> opr \<in> set (''!'' # binary_operators)"
proof -
  from assms(1,2) obtain n where n: "nextOpLen p = Inr n" and "n = 1 \<or> n = 2"
    and o: "opr = take n p" "p2 = drop n p"
    by (auto simp: parser_op_def split: sum.splits if_splits)
  then have split: "p = opr @ p2" by simp
  have pne: "p \<noteq> []" using assms(2) o by auto
  show ?thesis
  proof (cases "n = 1")
    case True
    with assms(1,2) n have "hd (take 1 p) \<in> set singles"
      by (auto simp: parser_op_def split: sum.splits if_splits)
    moreover have "take 1 p = [hd p]" using pne by (cases p) auto
    ultimately have "hd p \<in> set singles" "opr = [hd p]" using o True by auto
    with assms(3) have "opr \<in> set (''!'' # binary_operators)"
      by (auto simp: level_ops_def binary_operators_def)
    with split show ?thesis by simp
  next
    case False
    with \<open>n = 1 \<or> n = 2\<close> have n2: "n = 2" by simp
    with assms(1,2) n have "in_doubles (take 2 p) doubles = Inr True"
      by (auto simp: parser_op_def split: sum.splits if_splits)
    then have "opr \<in> set [''||'', ''&&'', ''=='', ''!='', ''>='', ''<='', ''>>'', ''<<'', ''&^'']"
      using in_doubles_level [OF assms(3)] o n2 by blast
    then have "opr \<in> set (''!'' # binary_operators)"
      by (auto simp: binary_operators_def)
    with split show ?thesis by simp
  qed
qed

section \<open>What a parsing function consumes has balanced parentheses\<close>

lemma neutral_Nil: "neutral []"
  by (simp add: neutral_def)

lemma neutral_append: "neutral u \<Longrightarrow> neutral v \<Longrightarrow> neutral (u @ v)"
  by (simp add: neutral_def)

lemma neutral_no_paren: "\<forall>c\<in>set u. no_paren c \<Longrightarrow> neutral u"
  by (induction u) (auto simp: neutral_def no_paren_def)

lemma neutral_group: "neutral u \<Longrightarrow> neutral (CHR ''('' # u @ [CHR '')''])"
  by (simp add: neutral_def)

lemma no_paren_isSpace: "isSpace c \<Longrightarrow> no_paren c"
  by (auto simp: isSpace_def no_paren_def)

lemma no_paren_isDigit: "isDigit c \<Longrightarrow> no_paren c"
  by (auto simp: isDigit_def no_paren_def)

lemma no_paren_isAlpha: "isAlpha c b \<Longrightarrow> no_paren c"
  by (auto simp: isAlpha_def isDigit_def no_paren_def split: if_splits)

lemma neutral_spaces: "neutral (takeWhile isSpace p)"
  by (rule neutral_no_paren) (auto dest: set_takeWhileD no_paren_isSpace)

lemma neutral_digits: "neutral (takeWhile isDigit p)"
  by (rule neutral_no_paren) (auto dest: set_takeWhileD no_paren_isDigit)

lemma neutral_alphas: "neutral (takeWhile (\<lambda>c. isAlpha c True) p)"
  by (rule neutral_no_paren) (auto dest: set_takeWhileD no_paren_isAlpha)

lemma neutral_operator: "opr \<in> set (''!'' # binary_operators) \<Longrightarrow> neutral opr"
  by (rule neutral_no_paren) (auto simp: binary_operators_def no_paren_def)

lemma consumes_neutralI: "p = u @ p' \<Longrightarrow> neutral u \<Longrightarrow> consumes_neutral p e p'"
  by (auto simp: consumes_neutral_def)

lemma orList_consumes_neutral:
  assumes "orList p = Inr (e, p')"
  shows "consumes_neutral p e p'"
proof -
  have "\<forall>e' p'. orList p = Inr (e', p') \<longrightarrow> consumes_neutral p e' p'"
  proof (rule parser_rel_induct(4))
    fix p c p0 n p1
    assume pk: "peek True p = (c, p0)" and ne: "c \<noteq> eof" and "isDigit c"
      and nm: "number p0 = (n, p1)"
    have "p = takeWhile isSpace p @ p0" using peek_True_not_eof(1) [OF pk ne] skip_split by simp
    moreover have "p0 = takeWhile isDigit p0 @ p1" using nm by (auto simp: number_def number_loop_eq)
    ultimately have "p = (takeWhile isSpace p @ takeWhile isDigit p0) @ p1" by simp
    then show "consumes_neutral p (Expr [] nil nil [] n) p1"
      by (rule consumes_neutralI) (intro neutral_append neutral_spaces neutral_digits)
  next
    fix p c p0 s p1
    assume pk: "peek True p = (c, p0)" and ne: "c \<noteq> eof" and "\<not> isDigit c"
      and al: "isAlpha c False" and id: "parser_identifier p0 = (s, p1)"
    have p0: "p0 = skip p" "p0 \<noteq> []" "c = hd p0" by (rule peek_True_not_eof [OF pk ne])+
    have "p = takeWhile isSpace p @ p0" using p0 skip_split by simp
    moreover have "p0 = (hd p0 # takeWhile (\<lambda>c. isAlpha c True) (tl p0)) @ p1"
      using id parser_identifier_eq [of p0] p0 al by (cases p0) auto
    ultimately have "p = (takeWhile isSpace p @ [hd p0] @ takeWhile (\<lambda>c. isAlpha c True) (tl p0)) @ p1"
      by simp
    moreover have "neutral [hd p0]"
      using al p0 by (intro neutral_no_paren) (auto dest: no_paren_isAlpha)
    ultimately show "consumes_neutral p (Expr [] nil nil s 0) p1"
      by (elim consumes_neutralI) (intro neutral_append neutral_spaces neutral_alphas)
  next
    fix p c p0 c1 p1 r p2
    assume pk: "peek True p = (c, p0)" and ne: "c \<noteq> eof"
      and st: "starts p0 ''+-^!''" and nx: "nextc False p0 = (c1, p1)"
      and ih: "consumes_neutral p1 r p2"
    have p0: "p0 = skip p" "p0 \<noteq> []" by (rule peek_True_not_eof [OF pk ne])+
    from ih obtain u where u: "p1 = u @ p2" "neutral u" by (auto simp: consumes_neutral_def)
    have c1: "p0 = c1 # p1" using nextc_False_eq [OF nx p0(2)] .
    then have "neutral [c1]" using st
      by (intro neutral_no_paren) (auto simp: starts_def no_paren_def)
    moreover have "p = (takeWhile isSpace p @ [c1] @ u) @ p2" using p0 c1 u skip_split by simp
    ultimately show "consumes_neutral p (Expr (take 1 p0) nil r [] 0) p2"
      using u(2) by (elim consumes_neutralI) (intro neutral_append neutral_spaces)
  next
    fix p p0 c1 p1 e p2 p3
    assume pk: "peek True p = (CHR ''('', p0)" and nx: "nextc False p0 = (c1, p1)"
      and ih: "consumes_neutral p1 e p2" and cl: "nextc True p2 = (CHR '')'', p3)"
    have ne: "CHR ''('' \<noteq> eof" by (simp add: eof_def)
    have p0: "p0 = skip p" "p0 \<noteq> []" "CHR ''('' = hd p0"
      by (rule peek_True_not_eof [OF pk ne])+
    from ih obtain u where u: "p1 = u @ p2" "neutral u" by (auto simp: consumes_neutral_def)
    have c1: "p0 = CHR ''('' # p1" using nextc_False_eq [OF nx p0(2)] p0(3) by auto
    have "skip p2 = CHR '')'' # p3" using nextc_True_eq [OF cl] by (simp add: eof_def)
    then have p2: "takeWhile isSpace p2 @ CHR '')'' # p3 = p2" using skip_split [of p2] by simp
    have "takeWhile isSpace p @ CHR ''('' # u @ p2 = p" using p0(1) c1 u(1) skip_split [of p] by simp
    then have "p = (takeWhile isSpace p @ (CHR ''('' # (u @ takeWhile isSpace p2) @ [CHR '')''])) @ p3"
      using p2 by simp
    then show "consumes_neutral p e p3"
      using u(2) by (elim consumes_neutralI)
        (intro neutral_append neutral_spaces neutral_group)
  next
    fix p0 e p c p1
    assume ih: "consumes_neutral p0 e p" and pk: "peek True p = (c, p1)"
    from ih obtain u where u: "p0 = u @ p" "neutral u" by (auto simp: consumes_neutral_def)
    have "p1 = skip p" using peek_True_eq [OF pk] by simp
    then have "p0 = (u @ takeWhile isSpace p) @ p1" using u skip_split by simp
    then show "consumes_neutral p0 e p1"
      using u(2) by (elim consumes_neutralI) (intro neutral_append neutral_spaces)
  next
    fix p0 e p c p1 singles doubles opr p2 r p3
    assume ih: "consumes_neutral p0 e p" and pk: "peek True p = (c, p1)"
      and lv: "(singles, doubles) \<in> set level_ops"
      and o: "parser_op p1 singles doubles = Inr (opr, p2)" and ne: "opr \<noteq> []"
      and ih2: "consumes_neutral p2 r p3"
    from ih obtain u where u: "p0 = u @ p" "neutral u" by (auto simp: consumes_neutral_def)
    from ih2 obtain v where v: "p2 = v @ p3" "neutral v" by (auto simp: consumes_neutral_def)
    have p1: "p1 = skip p" using peek_True_eq [OF pk] by simp
    have oc: "p1 = opr @ p2" "opr \<in> set (''!'' # binary_operators)"
      using parser_op_consumed [OF o ne lv] by simp_all
    have "p0 = (u @ takeWhile isSpace p @ opr @ v) @ p3" using u v p1 oc(1) skip_split by simp
    then show "consumes_neutral p0 (Expr opr e r [] 0) p3"
      using u(2) v(2) neutral_operator [OF oc(2)]
      by (elim consumes_neutralI) (intro neutral_append neutral_spaces)
  qed
  with assms show ?thesis by blast
qed

lemma Parse_success:
  "Parse s = Inr (e, None) \<Longrightarrow> \<exists>p. orList s = Inr (e, p) \<and> fst (peek True p) = eof"
  by (auto simp: Parse_def Parse_body_def recoverer_def throw_def
      split: sum.splits prod.splits if_splits panic.splits)

lemma skip_all_space: "skip p = [] \<Longrightarrow> \<forall>c\<in>set p. isSpace c"
  by (induction p) (auto simp: starts_def isSpace_def split: if_splits)

lemma set_skip: "set (skip p) \<subseteq> set p"
  by (induction p) auto

lemma Parse_balanced:
  assumes "Parse s = Inr (e, None)" and "CHR 0x00 \<notin> set s"
  shows "balanced 0 s"
proof -
  from assms(1) obtain p where o: "orList s = Inr (e, p)" and pk: "fst (peek True p) = eof"
    using Parse_success by blast
  from orList_consumes_neutral [OF o] obtain u where u: "s = u @ p" "neutral u"
    by (auto simp: consumes_neutral_def)
  have "skip p = []"
  proof (rule ccontr)
    assume "skip p \<noteq> []"
    then obtain c cs where sk: "skip p = c # cs" by (cases "skip p") auto
    then have "c = eof" using pk by (simp add: peek_def)
    moreover have "c \<in> set s" using sk set_skip [of p] u(1) by auto
    ultimately show False using assms(2) by (simp add: eof_def)
  qed
  then have "neutral p"
    by (intro neutral_no_paren) (auto dest: skip_all_space no_paren_isSpace)
  then have "balanced 0 (p @ []) = balanced 0 []" unfolding neutral_def by blast
  then have "balanced 0 p" by simp
  then show ?thesis using u by (simp add: neutral_def)
qed

lemma Parse_trailing:
  assumes "orList s = Inr (e, p)" and "skip p \<noteq> []" and "hd (skip p) \<noteq> CHR 0x00"
  shows "Parse s = Inr (e, Some (New [Text ''syntax error at '', Quoted (skip p)]))"
  using assms by (cases "skip p")
    (auto simp: Parse_def Parse_body_def peek_def eof_def throw_def recoverer_def remaining_def)


lemma Parse_leaves_blanks:
  assumes "Parse s = Inr (e, None)" and "CHR 0x00 \<notin> set s"
  shows "\<exists>p'. orList s = Inr (e, p') \<and> skip p' = []"
proof -
  from assms(1) obtain p where o: "orList s = Inr (e, p)" and pk: "fst (peek True p) = eof"
    using Parse_success by blast
  from orList_consumes_neutral [OF o] obtain u where u: "s = u @ p"
    by (auto simp: consumes_neutral_def)
  have "skip p = []"
  proof (rule ccontr)
    assume "skip p \<noteq> []"
    then obtain c cs where sk: "skip p = c # cs" by (cases "skip p") auto
    then have "c = eof" using pk by (simp add: peek_def)
    moreover have "c \<in> set s" using sk set_skip [of p] u by auto
    ultimately show False using assms(2) by (simp add: eof_def)
  qed
  with o show ?thesis by blast
qed

lemma Parse_success_iff:
  "Parse s = Inr (e, None) \<longleftrightarrow>
     (\<exists>q. orList s = Inr (e, q) \<and> (skip q = [] \<or> hd (skip q) = CHR 0x00))"
proof
  assume "Parse s = Inr (e, None)"
  then obtain q where o: "orList s = Inr (e, q)" and pk: "fst (peek True q) = eof"
    using Parse_success by blast
  from pk have "skip q = [] \<or> hd (skip q) = CHR 0x00"
    by (cases "skip q") (auto simp: peek_def eof_def)
  with o show "\<exists>q. orList s = Inr (e, q) \<and> (skip q = [] \<or> hd (skip q) = CHR 0x00)" by blast
next
  assume "\<exists>q. orList s = Inr (e, q) \<and> (skip q = [] \<or> hd (skip q) = CHR 0x00)"
  then obtain q where o: "orList s = Inr (e, q)"
    and sk: "skip q = [] \<or> hd (skip q) = CHR 0x00" by blast
  from sk have "fst (peek True q) = eof"
    by (cases "skip q") (auto simp: peek_def eof_def)
  with o show "Parse s = Inr (e, None)"
    by (auto simp: Parse_def Parse_body_def split: prod.splits)
qed

lemma Parse_balanced_prefix:
  assumes "Parse s = Inr (e, None)"
  shows "\<exists>u q. s = u @ q \<and> balanced 0 u \<and> orList s = Inr (e, q)
           \<and> (skip q = [] \<or> hd (skip q) = CHR 0x00)"
proof -
  from assms obtain q where o: "orList s = Inr (e, q)"
    and sk: "skip q = [] \<or> hd (skip q) = CHR 0x00"
    using Parse_success_iff by blast
  from orList_consumes_neutral [OF o] obtain u where u: "s = u @ q" "neutral u"
    by (auto simp: consumes_neutral_def)
  from u(2) have "balanced 0 (u @ []) = balanced 0 []" unfolding neutral_def by blast
  then have "balanced 0 u" by simp
  with u(1) o sk show ?thesis by blast
qed

section \<open>The values of integer literals\<close>

lemma digit_step_of_nat:
  "isDigit c \<Longrightarrow> digit_step (of_nat a) c = of_nat (10 * a + (of_char c - of_char (CHR ''0'')))"
  by (simp add: digit_step_def isDigit_def of_nat_diff)

lemma foldl_digit_step:
  "\<forall>c\<in>set ds. isDigit c \<Longrightarrow>
     foldl digit_step (of_nat a) ds
       = of_nat (foldl (\<lambda>a c. 10 * a + (of_char c - of_char (CHR ''0''))) a ds)"
proof (induction ds arbitrary: a)
  case Nil
  show ?case by simp
next
  case (Cons c ds)
  from Cons.prems have d: "isDigit c" and ds: "\<forall>c\<in>set ds. isDigit c" by simp_all
  show ?case unfolding foldl_Cons digit_step_of_nat [OF d] by (rule Cons.IH [OF ds])
qed

lemma number_value:
  "number p = (of_nat (decimal_value (takeWhile isDigit p)), dropWhile isDigit p)"
proof -
  have "\<forall>c\<in>set (takeWhile isDigit p). isDigit c" by (auto dest: set_takeWhileD)
  from foldl_digit_step [OF this, of 0] show ?thesis
    by (simp add: number_def number_loop_eq decimal_value_def)
qed

lemma sint_of_nat_small: "v < 2 ^ 63 \<Longrightarrow> sint (of_nat v :: go_int) = int v"
proof -
  assume "v < 2 ^ 63"
  then have "int v < 2 ^ 63" by (metis of_nat_less_iff of_nat_numeral of_nat_power)
  then have "signed_take_bit 63 (int v) = int v"
    by (intro signed_take_bit_int_eq_self) simp_all
  then show ?thesis by (simp add: signed_of_nat)
qed

lemma literals_in_range_skip: "literals_in_range p \<Longrightarrow> literals_in_range (skip p)"
proof (induction p)
  case Nil
  then show ?case by simp
next
  case (Cons c p)
  show ?case
  proof (cases "isSpace c")
    case True
    then have "literals_in_range (c # p) = literals_in_range p"
      using isSpace_not_digit_alpha [of c False] by simp
    moreover have "skip (c # p) = skip p" using True by (simp add: starts_def isSpace_def)
    ultimately show ?thesis using Cons by simp
  next
    case False
    then have "skip (c # p) = c # p" by (simp add: starts_def isSpace_def)
    with Cons.prems show ?thesis by simp
  qed
qed

lemma literals_in_range_operator_char:
  "\<not> isDigit c \<Longrightarrow> \<not> isAlpha c False \<Longrightarrow> literals_in_range (c # p) = literals_in_range p"
  by simp

lemma literals_in_range_operator:
  "opr \<in> set (''!'' # binary_operators) \<Longrightarrow> literals_in_range (opr @ p) \<Longrightarrow> literals_in_range p"
  by (auto simp: binary_operators_def isDigit_def isAlpha_def)

lemma orList_keeps_literals:
  assumes "orList p = Inr (e, p')"
  shows "keeps_literals p e p'"
proof -
  have "\<forall>e' p'. orList p = Inr (e', p') \<longrightarrow> keeps_literals p e' p'"
  proof (rule parser_rel_induct(4))
    fix p c p0 n p1
    assume pk: "peek True p = (c, p0)" and ne: "c \<noteq> eof" and d: "isDigit c"
      and nm: "number p0 = (n, p1)"
    have p0: "p0 = skip p" "p0 \<noteq> []" "c = hd p0" by (rule peek_True_not_eof [OF pk ne])+
    show "keeps_literals p (Expr [] nil nil [] n) p1"
      unfolding keeps_literals_def
    proof
      assume "literals_in_range p"
      then have "literals_in_range p0" using p0(1) literals_in_range_skip by simp
      moreover obtain cs where cs: "p0 = c # cs" using peek_True_Cons [OF pk ne] by blast
      ultimately have v: "decimal_value (takeWhile isDigit p0) < 2 ^ 63"
        and r: "literals_in_range (dropWhile isDigit cs)" using d by simp_all
      have n: "n = of_nat (decimal_value (takeWhile isDigit p0))" and p1: "p1 = dropWhile isDigit p0"
        using nm number_value [of p0] by simp_all
      have "0 \<le> sint n" using sint_of_nat_small [OF v] n by simp
      moreover have "literals_in_range p1" using r p1 cs d by simp
      ultimately show "nonneg_leaves (Expr [] nil nil [] n) \<and> literals_in_range p1" by simp
    qed
  next
    fix p c p0 s p1
    assume pk: "peek True p = (c, p0)" and ne: "c \<noteq> eof" and nd: "\<not> isDigit c"
      and al: "isAlpha c False" and id: "parser_identifier p0 = (s, p1)"
    have p0: "p0 = skip p" "p0 \<noteq> []" "c = hd p0" by (rule peek_True_not_eof [OF pk ne])+
    show "keeps_literals p (Expr [] nil nil s 0) p1"
      unfolding keeps_literals_def
    proof
      assume "literals_in_range p"
      then have "literals_in_range p0" using p0(1) literals_in_range_skip by simp
      moreover obtain cs where cs: "p0 = c # cs" using peek_True_Cons [OF pk ne] by blast
      ultimately have r: "literals_in_range (dropWhile (\<lambda>c. isAlpha c True) cs)"
        using nd al by simp
      have "p1 = dropWhile (\<lambda>c. isAlpha c True) (tl p0)"
        using id parser_identifier_eq [of p0] p0 al by simp
      then show "nonneg_leaves (Expr [] nil nil s 0) \<and> literals_in_range p1"
        using r cs by simp
    qed
  next
    fix p c p0 c1 p1 r p2
    assume pk: "peek True p = (c, p0)" and ne: "c \<noteq> eof" and nd: "\<not> isDigit c"
      and na: "\<not> isAlpha c False" and nx: "nextc False p0 = (c1, p1)"
      and ih: "keeps_literals p1 r p2"
    have p0: "p0 = skip p" "p0 \<noteq> []" "c = hd p0" by (rule peek_True_not_eof [OF pk ne])+
    have c1: "p0 = c1 # p1" using nextc_False_eq [OF nx p0(2)] .
    show "keeps_literals p (Expr (take 1 p0) nil r [] 0) p2"
      unfolding keeps_literals_def
    proof
      assume "literals_in_range p"
      then have "literals_in_range p0" using p0(1) literals_in_range_skip by simp
      then have "literals_in_range p1" using c1 p0(3) nd na by simp
      then show "nonneg_leaves (Expr (take 1 p0) nil r [] 0) \<and> literals_in_range p2"
        using ih c1 by (simp add: keeps_literals_def)
    qed
  next
    fix p p0 c1 p1 e p2 p3
    assume pk: "peek True p = (CHR ''('', p0)" and nx: "nextc False p0 = (c1, p1)"
      and ih: "keeps_literals p1 e p2" and cl: "nextc True p2 = (CHR '')'', p3)"
    have ne: "CHR ''('' \<noteq> eof" by (simp add: eof_def)
    have p0: "p0 = skip p" "p0 \<noteq> []" "CHR ''('' = hd p0"
      by (rule peek_True_not_eof [OF pk ne])+
    have c1: "p0 = CHR ''('' # p1" using nextc_False_eq [OF nx p0(2)] p0(3) by auto
    have sk: "skip p2 = CHR '')'' # p3" using nextc_True_eq [OF cl] by (simp add: eof_def)
    show "keeps_literals p e p3"
      unfolding keeps_literals_def
    proof
      assume "literals_in_range p"
      then have "literals_in_range p0" using p0(1) literals_in_range_skip by simp
      then have "literals_in_range p1" using c1 by (simp add: isDigit_def isAlpha_def)
      then have e: "nonneg_leaves e" and "literals_in_range p2"
        using ih by (simp_all add: keeps_literals_def)
      then have "literals_in_range (skip p2)" using literals_in_range_skip by simp
      then have "literals_in_range p3" using sk by (simp add: isDigit_def isAlpha_def)
      with e show "nonneg_leaves e \<and> literals_in_range p3" by simp
    qed
  next
    fix p0 e p c p1
    assume ih: "keeps_literals p0 e p" and pk: "peek True p = (c, p1)"
    have "p1 = skip p" using peek_True_eq [OF pk] by simp
    then show "keeps_literals p0 e p1"
      using ih literals_in_range_skip by (auto simp: keeps_literals_def)
  next
    fix p0 e p c p1 singles doubles opr p2 r p3
    assume ih: "keeps_literals p0 e p" and pk: "peek True p = (c, p1)"
      and lv: "(singles, doubles) \<in> set level_ops"
      and o: "parser_op p1 singles doubles = Inr (opr, p2)" and ne: "opr \<noteq> []"
      and ih2: "keeps_literals p2 r p3"
    have p1: "p1 = skip p" using peek_True_eq [OF pk] by simp
    have oc: "p1 = opr @ p2" "opr \<in> set (''!'' # binary_operators)"
      using parser_op_consumed [OF o ne lv] by simp_all
    show "keeps_literals p0 (Expr opr e r [] 0) p3"
      unfolding keeps_literals_def
    proof
      assume "literals_in_range p0"
      then have e: "nonneg_leaves e" and "literals_in_range p"
        using ih by (simp_all add: keeps_literals_def)
      then have "literals_in_range (opr @ p2)" using p1 oc(1) literals_in_range_skip by metis
      then have "literals_in_range p2" using literals_in_range_operator [OF oc(2)] by simp
      then have "nonneg_leaves r" and "literals_in_range p3"
        using ih2 by (simp_all add: keeps_literals_def)
      with e ne show "nonneg_leaves (Expr opr e r [] 0) \<and> literals_in_range p3" by simp
    qed
  qed
  with assms show ?thesis by blast
qed

lemma Parse_nonneg_leaves:
  assumes "Parse s = Inr (e, None)" and "literals_in_range s"
  shows "nonneg_leaves e"
proof -
  from assms(1) obtain p where "orList s = Inr (e, p)" using Parse_success by blast
  from orList_keeps_literals [OF this] assms(2) show ?thesis by (simp add: keeps_literals_def)
qed


section \<open>Parsing the rendering of a tree\<close>

lemma orList_parser_tree:
  assumes "orList p = Inr (e, p')"
  shows "parser_tree e"
proof -
  have "\<forall>e' p'. orList p = Inr (e', p') \<longrightarrow> (\<lambda>p e p'. parser_tree e) p e' p'"
  proof (rule parser_rel_induct(4))
    fix p c p0 n p1
    show "parser_tree (Expr [] nil nil [] n)" by simp
  next
    fix p c p0 s p1
    assume pk: "peek True p = (c, p0)" and ne: "c \<noteq> eof"
      and al: "isAlpha c False" and id: "parser_identifier p0 = (s, p1)"
    have p0: "p0 \<noteq> []" "c = hd p0" by (rule peek_True_not_eof [OF pk ne])+
    have "s = hd p0 # takeWhile (\<lambda>c. isAlpha c True) (tl p0)"
      using id parser_identifier_eq [of p0] p0 al by simp
    then have "valid_ident s" using al p0
      by (auto simp: valid_ident_def list_all_iff dest: set_takeWhileD)
    then show "parser_tree (Expr [] nil nil s 0)" by simp
  next
    fix p c p0 c1 p1 r p2
    assume pk: "peek True p = (c, p0)" and ne: "c \<noteq> eof"
      and st: "starts p0 ''+-^!''" and r: "parser_tree r"
    have p0: "p0 \<noteq> []" by (rule peek_True_not_eof [OF pk ne])
    then have "take 1 p0 \<in> set unary_operators" using st
      by (cases p0) (auto simp: starts_def unary_operators_def)
    moreover have "take 1 p0 \<noteq> []" using p0 by (cases p0) auto
    ultimately show "parser_tree (Expr (take 1 p0) nil r [] 0)" using r by simp
  next
    fix p0 e p c p1 singles doubles opr p2 r p3
    assume e: "parser_tree e" and lv: "(singles, doubles) \<in> set level_ops"
      and o: "parser_op p1 singles doubles = Inr (opr, p2)" and ne: "opr \<noteq> []"
      and r: "parser_tree r"
    have "opr \<in> set (''!'' # binary_operators)" using parser_op_consumed [OF o ne lv] by simp
    moreover have "e \<noteq> nil" using e by auto
    ultimately show "parser_tree (Expr opr e r [] 0)" using e r ne by simp
  qed
  with assms show ?thesis by blast
qed

subsection \<open>Decimal numerals\<close>

lemma digit_char_cases:
  assumes "m < 10"
  shows "isDigit (digit_char m) \<and> of_char (digit_char m) = 48 + m"
proof -
  from assms have "m = 0 \<or> m = 1 \<or> m = 2 \<or> m = 3 \<or> m = 4 \<or> m = 5
    \<or> m = 6 \<or> m = 7 \<or> m = 8 \<or> m = 9" by presburger
  then show ?thesis by (elim disjE) (simp_all add: digit_char_def isDigit_def)
qed

lemma decimal_digits: "decimal k \<noteq> [] \<and> (\<forall>c\<in>set (decimal k). isDigit c)"
proof (induction k rule: decimal.induct)
  case (1 n)
  show ?case
  proof (cases "n < 10")
    case True
    then show ?thesis using digit_char_cases [of n] by (simp add: decimal.simps [of n])
  next
    case False
    then show ?thesis using 1 digit_char_cases [of "n mod 10"] by (simp add: decimal.simps [of n])
  qed
qed

lemma decimal_value_snoc:
  "decimal_value (ds @ [d]) = 10 * decimal_value ds + (of_char d - of_char (CHR ''0''))"
  by (simp add: decimal_value_def)

lemma decimal_value_decimal: "decimal_value (decimal k) = k"
proof (induction k rule: decimal.induct)
  case (1 n)
  show ?case
  proof (cases "n < 10")
    case True
    then show ?thesis using digit_char_cases [of n]
      by (simp add: decimal.simps [of n] decimal_value_def)
  next
    case False
    then have "decimal_value (decimal n) = 10 * (n div 10) + n mod 10"
      using 1 digit_char_cases [of "n mod 10"]
      by (simp add: decimal.simps [of n] decimal_value_snoc)
    then show ?thesis by simp
  qed
qed

lemma takeWhile_append_stop:
  "\<forall>c\<in>set xs. P c \<Longrightarrow> (ys = [] \<or> \<not> P (hd ys)) \<Longrightarrow>
     takeWhile P (xs @ ys) = xs \<and> dropWhile P (xs @ ys) = ys"
  by (cases ys) (auto simp: takeWhile_append dropWhile_append)

lemma stop_rest_not_digit: "stop_rest rest \<Longrightarrow> rest = [] \<or> \<not> isDigit (hd rest)"
  by (cases rest) (auto simp: stop_rest_def isDigit_def)

lemma stop_rest_not_alpha: "stop_rest rest \<Longrightarrow> rest = [] \<or> \<not> isAlpha (hd rest) True"
  by (cases rest) (auto simp: stop_rest_def isAlpha_def isDigit_def)

lemma number_decimal:
  assumes "stop_rest rest"
  shows "number (decimal k @ rest) = (of_nat k, rest)"
proof -
  have "takeWhile isDigit (decimal k @ rest) = decimal k \<and> dropWhile isDigit (decimal k @ rest) = rest"
    using decimal_digits [of k] stop_rest_not_digit [OF assms] by (intro takeWhile_append_stop) auto
  then show ?thesis by (simp add: number_value decimal_value_decimal)
qed

lemma of_nat_nat_sint: "0 \<le> sint (n :: go_int) \<Longrightarrow> of_nat (nat (sint n)) = n"
proof -
  assume "0 \<le> sint n"
  then have "(of_nat (nat (sint n)) :: go_int) = word_of_int (sint n)"
    by (simp add: word_of_int_nat)
  also have "\<dots> = n" by simp
  finally show ?thesis .
qed


subsection \<open>Running the parser forwards\<close>

lemma skip_not_space: "\<not> isSpace c \<Longrightarrow> skip (c # t) = c # t"
  by (simp add: starts_def isSpace_def)

lemma peek_True_not_space: "\<not> isSpace c \<Longrightarrow> peek True (c # t) = (c, c # t)"
  by (simp add: peek_def starts_def isSpace_def)

lemma skip_idem: "skip (skip p) = skip p"
  by (induction p) (auto simp: starts_def)

lemma peek_True_skip: "peek True (skip p) = peek True p"
  by (simp add: peek_def skip_idem)

lemma factor_skip: "factor (skip p) = factor p"
  by (subst factor.simps, subst (2) factor.simps) (simp only: peek_True_skip)

lemma parse_loop_closes:
  assumes "closes q"
  shows "parse_loop singles doubles nextLevel e q = Inr (e, q)"
proof (cases q)
  case Nil
  then show ?thesis by (subst parse_loop.simps) (simp add: peek_def)
next
  case (Cons c t)
  with assms have c: "c = CHR '')''" by (simp add: closes_def)
  have "peek True (CHR '')'' # t) = (CHR '')'', CHR '')'' # t)"
    by (rule peek_True_not_space) (simp add: isSpace_def)
  moreover have "parser_op (CHR '')'' # t) singles doubles = Inr ([], CHR '')'' # t)"
    by (simp add: parser_op_def nextOpLen_def)
  ultimately show ?thesis using Cons c
    by (subst parse_loop.simps) (simp add: eof_def)
qed

lemma parse_closes:
  assumes "call nextLevel p = Inr (e, q)" and "closes q"
  shows "parse singles doubles nextLevel p = Inr (e, q)"
  using assms by (subst parse.simps) (simp add: parse_loop_closes)

lemma call_closes:
  assumes "factor p = Inr (e, q)" and "closes q"
  shows "call lvl p = Inr (e, q)"
proof -
  have f: "call F_factor p = Inr (e, q)" using assms(1) by simp
  have t: "call F_term p = Inr (e, q)"
    using parse_closes [OF f assms(2)] by (simp add: term_p.simps)
  have x: "call F_expr p = Inr (e, q)"
    using parse_closes [OF t assms(2)] by (simp add: expr.simps)
  have c: "call F_cmpList p = Inr (e, q)"
    using parse_closes [OF x assms(2)] by (simp add: cmpList.simps)
  have a: "call F_andList p = Inr (e, q)"
    using parse_closes [OF c assms(2)] by (simp add: andList.simps)
  have o: "call F_orList p = Inr (e, q)"
    using parse_closes [OF a assms(2)] by (simp add: orList.simps)
  show ?thesis using f t x c a o by (cases lvl) simp_all
qed

lemma factor_paren:
  assumes "orList t = Inr (e, CHR '')'' # rest)"
  shows "factor (CHR ''('' # t) = Inr (e, rest)"
proof -
  have "peek True (CHR ''('' # t) = (CHR ''('', CHR ''('' # t)"
    by (rule peek_True_not_space) (simp add: isSpace_def)
  moreover have "nextc True (CHR '')'' # rest) = (CHR '')'', rest)"
    by (simp add: nextc_def starts_def)
  ultimately show ?thesis using assms
    by (subst factor.simps) (simp add: eof_def isDigit_def isAlpha_def starts_def nextc_def)
qed

lemma factor_unary:
  assumes "opr \<in> set unary_operators" and "factor t = Inr (r, q)"
  shows "factor (opr @ t) = Inr (Expr opr nil r [] 0, q)"
proof -
  from assms(1) obtain c where o: "opr = [c]" and c: "c \<in> set ''+-^!''"
    by (auto simp: unary_operators_def)
  have "peek True (c # t) = (c, c # t)"
    using c by (intro peek_True_not_space) (auto simp: isSpace_def)
  then show ?thesis using assms(2) c unfolding o
    by (subst factor.simps) (auto simp: eof_def isDigit_def isAlpha_def starts_def nextc_def)
qed

lemma isDigit_not_space_eof: "isDigit c \<Longrightarrow> \<not> isSpace c \<and> c \<noteq> eof"
  by (auto simp: isDigit_def isSpace_def eof_def)

lemma isAlpha_not_space_eof: "isAlpha c False \<Longrightarrow> \<not> isSpace c \<and> c \<noteq> eof \<and> \<not> isDigit c"
  by (auto simp: isAlpha_def isDigit_def isSpace_def eof_def split: if_splits)

lemma factor_number:
  assumes "stop_rest rest"
  shows "factor (decimal k @ rest) = Inr (Expr [] nil nil [] (of_nat k), rest)"
proof -
  obtain d ds where d: "decimal k = d # ds" using decimal_digits [of k] by (cases "decimal k") auto
  then have dig: "isDigit d" using decimal_digits [of k] by simp
  have "peek True (decimal k @ rest) = (d, decimal k @ rest)"
    using isDigit_not_space_eof [OF dig] d by (simp add: peek_True_not_space)
  then show ?thesis using isDigit_not_space_eof [OF dig] dig number_decimal [OF assms, of k]
    by (subst factor.simps) simp
qed

lemma factor_identifier:
  assumes "valid_ident s" and "stop_rest rest"
  shows "factor (s @ rest) = Inr (Expr [] nil nil s 0, rest)"
proof -
  from assms(1) obtain a as where s: "s = a # as" and a: "isAlpha a False"
    and as: "\<forall>c\<in>set as. isAlpha c True"
    by (cases s) (auto simp: valid_ident_def list_all_iff)
  have pk: "peek True (s @ rest) = (a, s @ rest)"
    using isAlpha_not_space_eof [OF a] s by (simp add: peek_True_not_space)
  have "takeWhile (\<lambda>c. isAlpha c True) (as @ rest) = as
      \<and> dropWhile (\<lambda>c. isAlpha c True) (as @ rest) = rest"
    using as stop_rest_not_alpha [OF assms(2)] by (intro takeWhile_append_stop) auto
  then have "parser_identifier (s @ rest) = (s, rest)"
    using parser_identifier_eq [of "s @ rest"] s a by simp
  then show ?thesis using pk isAlpha_not_space_eof [OF a] a
    by (subst factor.simps) simp
qed


subsection \<open>An operator between two operands\<close>

lemma nextOpLen_operator:
  assumes "opr \<in> set (''!'' # binary_operators)"
  shows "nextOpLen (opr @ CHR '' '' # t) = Inr (length opr)"
  using assms unfolding binary_operators_def set_simps insert_iff empty_iff
  by (elim disjE) (simp_all add: nextOpLen_def maybe_def)

lemma operator_length:
  assumes "opr \<in> set (''!'' # binary_operators)"
  shows "length opr = 1 \<or> length opr = 2"
  using assms by (auto simp: binary_operators_def)

lemma in_doubles_total:
  assumes "(singles, doubles) \<in> set level_ops"
  shows "in_doubles opr doubles = Inr (in_doubles opr doubles = Inr True)"
  using assms by (auto simp: level_ops_def)

lemma parser_op_operator:
  assumes "opr \<in> set (''!'' # binary_operators)" and "(singles, doubles) \<in> set level_ops"
  shows "parser_op (opr @ CHR '' '' # t) singles doubles =
     (if accepts singles doubles opr then Inr (opr, CHR '' '' # t)
      else Inr ([], opr @ CHR '' '' # t))"
proof -
  have n: "nextOpLen (opr @ CHR '' '' # t) = Inr (length opr)"
    by (rule nextOpLen_operator [OF assms(1)])
  from operator_length [OF assms(1)] show ?thesis
  proof
    assume l: "length opr = 1"
    then obtain c where "opr = [c]" by (cases opr) auto
    then show ?thesis using n by (simp add: parser_op_def accepts_def)
  next
    assume l: "length opr = 2"
    then have "take 2 (opr @ CHR '' '' # t) = opr" "drop 2 (opr @ CHR '' '' # t) = CHR '' '' # t"
      by simp_all
    moreover obtain b where b: "in_doubles opr doubles = Inr b"
      using in_doubles_total [OF assms(2), of opr] by blast
    ultimately show ?thesis using n l
      by (cases b) (simp_all add: parser_op_def accepts_def)
  qed
qed

lemma operator_accepted:
  assumes "opr \<in> set (''!'' # binary_operators)"
  shows "accepts ''*/%&'' ''>><<&^'' opr \<or> accepts ''+-|^!'' [] opr
    \<or> accepts ''+-|^!><'' ''==!=>=<='' opr \<or> accepts [] ''&&'' opr \<or> accepts [] ''||'' opr"
  using assms unfolding binary_operators_def set_simps insert_iff empty_iff
  by (elim disjE) (simp_all add: accepts_def)

lemma operator_head:
  assumes "opr \<in> set (''!'' # binary_operators)"
  shows "\<exists>c cs. opr = c # cs \<and> \<not> isSpace c \<and> c \<noteq> eof"
  using assms unfolding binary_operators_def set_simps insert_iff empty_iff
  by (elim disjE) (simp_all add: isSpace_def eof_def)

lemma parse_operator:
  assumes l: "call nextLevel p = Inr (l, p1)" and sk: "skip p1 = opr @ CHR '' '' # q"
    and o: "opr \<in> set (''!'' # binary_operators)" and lv: "(singles, doubles) \<in> set level_ops"
    and r: "call nextLevel (CHR '' '' # q) = Inr (r, q')" and q': "closes q'"
  shows "parse singles doubles nextLevel p =
     (if accepts singles doubles opr then Inr (Expr opr l r [] 0, q')
      else Inr (l, opr @ CHR '' '' # q))"
proof -
  from operator_head [OF o] obtain c cs where c: "opr = c # cs" "c \<noteq> eof" by blast
  have pk: "peek True p1 = (c, opr @ CHR '' '' # q)"
    using sk c by (simp add: peek_def)
  have ne: "opr \<noteq> []" using c by simp
  have "parse_loop singles doubles nextLevel l p1 =
     (if accepts singles doubles opr then Inr (Expr opr l r [] 0, q')
      else Inr (l, opr @ CHR '' '' # q))"
    using pk c(2) ne r parser_op_operator [OF o lv, of q]
      parse_loop_closes [OF q', of singles doubles nextLevel "Expr opr l r [] 0"]
    by (subst parse_loop.simps) simp
  then show ?thesis using l by (subst parse.simps) simp
qed

lemma skip_operator:
  assumes "opr \<in> set (''!'' # binary_operators)"
  shows "skip (opr @ t) = opr @ t" and "skip (CHR '' '' # opr @ t) = opr @ t"
  using operator_head [OF assms] by (auto simp: starts_def isSpace_def)

lemma orList_operator:
  assumes l: "factor p = Inr (l, CHR '' '' # opr @ CHR '' '' # q)"
    and o: "opr \<in> set (''!'' # binary_operators)"
    and r: "factor q = Inr (r, q')" and q': "closes q'" and q: "skip q = q"
  shows "orList p = Inr (Expr opr l r [] 0, q')"
proof -
  let ?E = "Inr (Expr opr l r [] 0, q') :: panic + (Expr \<times> parser)"
  let ?L = "Inr (l, opr @ CHR '' '' # q) :: panic + (Expr \<times> parser)"
  have "factor (CHR '' '' # q) = Inr (r, q')"
    using factor_skip [of "CHR '' '' # q"] q r by (simp add: starts_def)
  then have rr: "call lvl (CHR '' '' # q) = Inr (r, q')" for lvl
    using call_closes q' by blast
  have f: "call F_factor p = Inr (l, CHR '' '' # opr @ CHR '' '' # q)" using l by simp
  have t: "call F_term p = (if accepts ''*/%&'' ''>><<&^'' opr then ?E else ?L)"
    using parse_operator [OF f skip_operator(2) [OF o] o _ rr q', of "''*/%&''" "''>><<&^''"]
    by (simp add: term_p.simps level_ops_def)
  have x: "call F_expr p =
      (if accepts ''*/%&'' ''>><<&^'' opr \<or> accepts ''+-|^!'' [] opr then ?E else ?L)"
  proof (cases "accepts ''*/%&'' ''>><<&^'' opr")
    case True
    then have "call F_term p = ?E" using t by simp
    from parse_closes [OF this q'] True show ?thesis by (auto simp: expr.simps)
  next
    case False
    then have "call F_term p = ?L" using t by simp
    from parse_operator [OF this skip_operator(1) [OF o] o _ rr q', of "''+-|^!''" "[]"] False
    show ?thesis by (simp add: expr.simps level_ops_def)
  qed
  have c: "call F_cmpList p =
      (if accepts ''*/%&'' ''>><<&^'' opr \<or> accepts ''+-|^!'' [] opr
          \<or> accepts ''+-|^!><'' ''==!=>=<='' opr then ?E else ?L)"
  proof (cases "accepts ''*/%&'' ''>><<&^'' opr \<or> accepts ''+-|^!'' [] opr")
    case True
    then have "call F_expr p = ?E" using x by simp
    from parse_closes [OF this q'] True show ?thesis by (auto simp: cmpList.simps)
  next
    case False
    then have "call F_expr p = ?L" using x by simp
    from parse_operator [OF this skip_operator(1) [OF o] o _ rr q', of "''+-|^!><''" "''==!=>=<=''"]
      False
    show ?thesis by (simp add: cmpList.simps level_ops_def)
  qed
  have a: "call F_andList p =
      (if accepts ''*/%&'' ''>><<&^'' opr \<or> accepts ''+-|^!'' [] opr
          \<or> accepts ''+-|^!><'' ''==!=>=<='' opr \<or> accepts [] ''&&'' opr then ?E else ?L)"
  proof (cases "accepts ''*/%&'' ''>><<&^'' opr \<or> accepts ''+-|^!'' [] opr
          \<or> accepts ''+-|^!><'' ''==!=>=<='' opr")
    case True
    then have "call F_cmpList p = ?E" using c by simp
    from parse_closes [OF this q'] True show ?thesis by (auto simp: andList.simps)
  next
    case False
    then have "call F_cmpList p = ?L" using c by simp
    from parse_operator [OF this skip_operator(1) [OF o] o _ rr q', of "[]" "''&&''"] False
    show ?thesis by (simp add: andList.simps level_ops_def)
  qed
  have "call F_orList p =
      (if accepts ''*/%&'' ''>><<&^'' opr \<or> accepts ''+-|^!'' [] opr
          \<or> accepts ''+-|^!><'' ''==!=>=<='' opr \<or> accepts [] ''&&'' opr
          \<or> accepts [] ''||'' opr then ?E else ?L)"
  proof (cases "accepts ''*/%&'' ''>><<&^'' opr \<or> accepts ''+-|^!'' [] opr
          \<or> accepts ''+-|^!><'' ''==!=>=<='' opr \<or> accepts [] ''&&'' opr")
    case True
    then have "call F_andList p = ?E" using a by simp
    from parse_closes [OF this q'] True show ?thesis by (auto simp: orList.simps)
  next
    case False
    then have "call F_andList p = ?L" using a by simp
    from parse_operator [OF this skip_operator(1) [OF o] o _ rr q', of "[]" "''||''"] False
    show ?thesis by (simp add: orList.simps level_ops_def)
  qed
  then show ?thesis using operator_accepted [OF o] by simp
qed


subsection \<open>Parsing a rendered tree\<close>

lemma String_head:
  assumes "parser_tree e" and "nonneg_leaves e"
  shows "\<exists>c cs. String e = c # cs \<and> \<not> isSpace c"
proof (cases e)
  case nil
  with assms(1) show ?thesis by simp
next
  case (Expr opr l r idt n)
  show ?thesis
  proof (cases "opr = []")
    case leaf: True
    show ?thesis
    proof (cases "idt = []")
      case True
      with leaf assms Expr have s: "String e = decimal (nat (sint n))"
        by (simp add: Sprint_int_def)
      obtain d ds where d: "decimal (nat (sint n)) = d # ds" "isDigit d"
        using decimal_digits [of "nat (sint n)"] by (cases "decimal (nat (sint n))") auto
      then show ?thesis using s isDigit_not_space_eof by auto
    next
      case False
      with leaf assms Expr have s: "String e = idt" and v: "valid_ident idt" by simp_all
      from v obtain a as where "idt = a # as" "isAlpha a False"
        by (cases idt) (auto simp: valid_ident_def)
      then show ?thesis using s isAlpha_not_space_eof by auto
    qed
  next
    case False
    then show ?thesis using Expr by (simp add: isSpace_def)
  qed
qed

lemma skip_String:
  assumes "parser_tree e" and "nonneg_leaves e"
  shows "skip (String e @ t) = String e @ t"
  using String_head [OF assms] by (auto simp: starts_def isSpace_def)

lemma factor_String:
  assumes "parser_tree e" and "nonneg_leaves e" and "stop_rest rest"
  shows "factor (String e @ rest) = Inr (e, rest)"
  using assms
proof (induction e arbitrary: rest)
  case nil
  then show ?case by simp
next
  case (Expr opr l r idt n)
  show ?case
  proof (cases "opr = []")
    case leaf: True
    with Expr.prems have lr: "l = nil" "r = nil" by simp_all
    show ?thesis
    proof (cases "idt = []")
      case True
      with leaf Expr.prems have nn: "0 \<le> sint n" by simp
      then have "String (Expr opr l r idt n) = decimal (nat (sint n))"
        using leaf lr True by (simp add: Sprint_int_def)
      then show ?thesis
        using factor_number [OF Expr.prems(3), of "nat (sint n)"] of_nat_nat_sint [OF nn] leaf lr True
        by simp
    next
      case False
      with leaf Expr.prems have "valid_ident idt" "n = 0" by simp_all
      then show ?thesis
        using factor_identifier [OF _ Expr.prems(3), of idt] leaf lr False by simp
    qed
  next
    case node: False
    with Expr.prems have shape: "idt = []" "n = 0" and r: "parser_tree r" "nonneg_leaves r"
      by simp_all
    have close: "closes (CHR '')'' # rest)" by (simp add: closes_def)
    have fr: "factor (String r @ CHR '')'' # rest) = Inr (r, CHR '')'' # rest)"
      by (rule Expr.IH(2) [OF r]) (simp add: stop_rest_def)
    show ?thesis
    proof (cases "l = nil")
      case True
      with node Expr.prems have u: "opr \<in> set unary_operators" by simp
      have "factor (opr @ String r @ CHR '')'' # rest) = Inr (Expr opr nil r [] 0, CHR '')'' # rest)"
        by (rule factor_unary [OF u fr])
      then have "call F_orList (opr @ String r @ CHR '')'' # rest)
          = Inr (Expr opr nil r [] 0, CHR '')'' # rest)"
        using close by (rule call_closes)
      then have "factor (CHR ''('' # opr @ String r @ CHR '')'' # rest)
          = Inr (Expr opr nil r [] 0, rest)"
        by (intro factor_paren) simp
      then show ?thesis using True node shape by simp
    next
      case False
      with node Expr.prems have l: "parser_tree l" "nonneg_leaves l"
        and o: "opr \<in> set (''!'' # binary_operators)" by simp_all
      have ne: "String l \<noteq> []" using String_head [OF l] by auto
      have fl: "factor (String l @ CHR '' '' # opr @ CHR '' '' # String r @ CHR '')'' # rest)
          = Inr (l, CHR '' '' # opr @ CHR '' '' # String r @ CHR '')'' # rest)"
        by (rule Expr.IH(1) [OF l]) (simp add: stop_rest_def)
      have "orList (String l @ CHR '' '' # opr @ CHR '' '' # String r @ CHR '')'' # rest)
          = Inr (Expr opr l r [] 0, CHR '')'' # rest)"
        by (rule orList_operator [OF fl o fr close skip_String [OF r]])
      then have "factor (CHR ''('' # String l @ CHR '' '' # opr @ CHR '' '' # String r @ CHR '')'' # rest)
          = Inr (Expr opr l r [] 0, rest)"
        by (rule factor_paren)
      then show ?thesis using False node shape ne by simp
    qed
  qed
qed


lemma Parse_parser_tree: "Parse s = Inr (e, None) \<Longrightarrow> parser_tree e"
  using Parse_success orList_parser_tree by blast

subsection \<open>Chains of operands and operators\<close>

lemma grammar_level_le: "grammar_level opr \<le> 5"
  by (simp add: grammar_level_def)

lemma binary_operators_level:
  "opr \<in> set binary_operators \<Longrightarrow> 1 \<le> grammar_level opr"
  unfolding binary_operators_def set_simps insert_iff empty_iff
  by (elim disjE) (simp_all add: grammar_level_def)

lemma accepts_grammar_level:
  assumes "opr \<in> set binary_operators"
  shows "grammar_level opr \<le> 5 \<Longrightarrow> accepts ''*/%&'' ''>><<&^'' opr = (grammar_level opr = 5)"
    and "grammar_level opr \<le> 4 \<Longrightarrow> accepts ''+-|^!'' [] opr = (grammar_level opr = 4)"
    and "grammar_level opr \<le> 3 \<Longrightarrow> accepts ''+-|^!><'' ''==!=>=<='' opr = (grammar_level opr = 3)"
    and "grammar_level opr \<le> 2 \<Longrightarrow> accepts [] ''&&'' opr = (grammar_level opr = 2)"
    and "grammar_level opr \<le> 1 \<Longrightarrow> accepts [] ''||'' opr = (grammar_level opr = 1)"
  using assms unfolding binary_operators_def set_simps insert_iff empty_iff
  by (elim disjE; simp add: grammar_level_def accepts_def)+

lemma parse_loop_skip: "parse_loop S D L e (skip p) = parse_loop S D L e p"
  by (simp add: parse_loop.simps [of S D L e "skip p"] parse_loop.simps [of S D L e p]
      peek_True_skip)

lemma parse_skip:
  assumes "call L (skip p) = call L p"
  shows "parse S D L (skip p) = parse S D L p"
  using assms by (simp add: parse.simps [of S D L "skip p"] parse.simps [of S D L p])

lemma call_skip: "call lvl (skip p) = call lvl p"
proof -
  have f: "call F_factor (skip p) = call F_factor p" by (simp add: factor_skip)
  have t: "call F_term (skip p) = call F_term p"
    using parse_skip [OF f] by (simp add: term_p.simps)
  have x: "call F_expr (skip p) = call F_expr p"
    using parse_skip [OF t] by (simp add: expr.simps)
  have c: "call F_cmpList (skip p) = call F_cmpList p"
    using parse_skip [OF x] by (simp add: cmpList.simps)
  have a: "call F_andList (skip p) = call F_andList p"
    using parse_skip [OF c] by (simp add: andList.simps)
  have o: "call F_orList (skip p) = call F_orList p"
    using parse_skip [OF a] by (simp add: orList.simps)
  show ?thesis using f t x c a o by (cases lvl) simp_all
qed

lemma dropWhile_dropWhile_weaker:
  assumes "\<And>x. Q x \<Longrightarrow> P x"
  shows "dropWhile P (dropWhile Q xs) = dropWhile P xs"
  using assms by (induction xs) auto

lemma binds_Suc: "binds (Suc k) x \<Longrightarrow> binds k x"
  by (cases x) (simp add: binds_def)

lemma chain_dropWhile: "chain ps \<Longrightarrow> chain (dropWhile P ps)"
  unfolding chain_def by (auto dest: set_dropWhileD)

lemma chain_Cons:
  "chain ((opr, a) # ps) \<longleftrightarrow>
     opr \<in> set binary_operators \<and> parser_tree a \<and> nonneg_leaves a \<and> chain ps"
  by (auto simp: chain_def)

lemma stop_rest_render_ops: "closes q \<Longrightarrow> stop_rest (render_ops ps @ q)"
  by (cases ps; cases q) (auto simp: stop_rest_def closes_def)

lemma skip_closes: "closes q \<Longrightarrow> skip q = q"
  by (cases q) (auto simp: closes_def starts_def)

lemma parse_loop_level:
  assumes nxt: "\<And>a ps q. parser_tree a \<Longrightarrow> nonneg_leaves a \<Longrightarrow> chain ps \<Longrightarrow> closes q \<Longrightarrow>
        \<exists>r. call L (String a @ render_ops ps @ q) = Inr (grammar_tree (Suc k) a ps, r)
          \<and> skip r = skip (render_ops (dropWhile (binds (Suc k)) ps) @ q)"
    and acc: "\<And>opr. opr \<in> set binary_operators \<Longrightarrow> grammar_level opr \<le> k \<Longrightarrow>
        accepts S D opr = (grammar_level opr = k)"
    and lv: "(S, D) \<in> set level_ops"
    and q: "closes q"
  shows "chain ps \<Longrightarrow> ps = [] \<or> grammar_level (fst (hd ps)) \<le> k \<Longrightarrow>
     skip p = skip (render_ops ps @ q) \<Longrightarrow>
     \<exists>r. parse_loop S D L e p = Inr (grammar_fold k e ps, r)
       \<and> skip r = skip (render_ops (dropWhile (binds k) ps) @ q)"
proof (induction ps arbitrary: e p rule: length_induct)
  case (1 ps)
  show ?case
  proof (cases ps)
    case Nil
    with "1.prems"(3) have sp: "skip p = q" using skip_closes [OF q] by simp
    have "parse_loop S D L e (skip p) = Inr (e, q)"
      unfolding sp by (rule parse_loop_closes [OF q])
    then have "parse_loop S D L e p = Inr (e, q)" by (simp only: parse_loop_skip)
    then show ?thesis using Nil by simp
  next
    case (Cons x rest)
    obtain opr a where x: "x = (opr, a)" by (cases x)
    from "1.prems"(1) Cons x have o: "opr \<in> set binary_operators"
      and a: "parser_tree a" "nonneg_leaves a" and rest: "chain rest"
      by (simp_all add: chain_Cons)
    from "1.prems"(2) Cons x have le: "grammar_level opr \<le> k" by simp
    have o': "opr \<in> set (''!'' # binary_operators)" using o by simp
    let ?Q = "String a @ render_ops rest @ q"
    have sp: "skip p = opr @ CHR '' '' # ?Q"
      using "1.prems"(3) Cons x skip_operator(2) [OF o', of "CHR '' '' # ?Q"] by simp
    from operator_head [OF o'] obtain c cs where c: "opr = c # cs" "c \<noteq> eof" by blast
    have pk: "peek True p = (c, opr @ CHR '' '' # ?Q)"
      using sp c by (simp add: peek_def)
    have ne: "opr \<noteq> []" using c by simp
    have po: "parser_op (opr @ CHR '' '' # ?Q) S D =
       (if grammar_level opr = k then Inr (opr, CHR '' '' # ?Q) else Inr ([], opr @ CHR '' '' # ?Q))"
      using parser_op_operator [OF o' lv, of ?Q] acc [OF o le] by simp
    show ?thesis
    proof (cases "grammar_level opr = k")
      case False
      have "parse_loop S D L e p = Inr (e, opr @ CHR '' '' # ?Q)"
        using pk c(2) po False by (subst parse_loop.simps) simp
      moreover have "grammar_fold k e ps = e" using Cons x False by simp
      moreover have "dropWhile (binds k) ps = ps"
        using Cons x False le by (simp add: binds_def)
      moreover have "skip (opr @ CHR '' '' # ?Q) = skip (render_ops ps @ q)"
        using sp "1.prems"(3) skip_idem [of p] by simp
      ultimately show ?thesis by simp
    next
      case True
      let ?ps2 = "dropWhile (binds (Suc k)) rest"
      let ?T = "grammar_tree (Suc k) a rest"
      have "skip (CHR '' '' # ?Q) = ?Q"
        using skip_String [OF a, of "render_ops rest @ q"] by (simp add: starts_def)
      then have "call L (CHR '' '' # ?Q) = call L ?Q"
        using call_skip [of L "CHR '' '' # ?Q"] by simp
      with nxt [OF a rest q] obtain r1 where
        r1: "call L (CHR '' '' # ?Q) = Inr (?T, r1)" "skip r1 = skip (render_ops ?ps2 @ q)"
        by auto
      have len: "length ?ps2 < length ps"
        using Cons length_dropWhile_le [of "binds (Suc k)" rest] by simp
      have hd2: "?ps2 = [] \<or> grammar_level (fst (hd ?ps2)) \<le> k"
      proof (cases "?ps2 = []")
        case False
        then have "\<not> binds (Suc k) (hd ?ps2)" by (rule hd_dropWhile)
        then show ?thesis by (cases "hd ?ps2") (simp add: binds_def)
      qed simp
      from "1.IH" [rule_format, OF len chain_dropWhile [OF rest] hd2 r1(2), of "Expr opr e ?T [] 0"]
      obtain r where r: "parse_loop S D L (Expr opr e ?T [] 0) r1
            = Inr (grammar_fold k (Expr opr e ?T [] 0) ?ps2, r)"
          "skip r = skip (render_ops (dropWhile (binds k) ?ps2) @ q)"
        by blast
      have "parse_loop S D L e p = Inr (grammar_fold k (Expr opr e ?T [] 0) ?ps2, r)"
        using pk c(2) ne po True r1(1) r(1) by (subst parse_loop.simps) simp
      moreover have "grammar_fold k e ps = grammar_fold k (Expr opr e ?T [] 0) ?ps2"
        using Cons x True by simp
      moreover have "dropWhile (binds k) ps = dropWhile (binds k) ?ps2"
        using Cons x True dropWhile_dropWhile_weaker [of "binds (Suc k)" "binds k" rest] binds_Suc
        by (simp add: binds_def)
      ultimately show ?thesis using r(2) by simp
    qed
  qed
qed

lemma parse_level:
  assumes nxt: "\<And>a ps q. parser_tree a \<Longrightarrow> nonneg_leaves a \<Longrightarrow> chain ps \<Longrightarrow> closes q \<Longrightarrow>
        \<exists>r. call L (String a @ render_ops ps @ q) = Inr (grammar_tree (Suc k) a ps, r)
          \<and> skip r = skip (render_ops (dropWhile (binds (Suc k)) ps) @ q)"
    and acc: "\<And>opr. opr \<in> set binary_operators \<Longrightarrow> grammar_level opr \<le> k \<Longrightarrow>
        accepts S D opr = (grammar_level opr = k)"
    and lv: "(S, D) \<in> set level_ops" and k: "k \<le> 5"
    and t: "parser_tree t" "nonneg_leaves t" and ps: "chain ps" and q: "closes q"
  shows "\<exists>r. parse S D L (String t @ render_ops ps @ q) = Inr (grammar_tree k t ps, r)
     \<and> skip r = skip (render_ops (dropWhile (binds k) ps) @ q)"
proof -
  let ?ps1 = "dropWhile (binds (Suc k)) ps"
  from nxt [OF t ps q] obtain r1 where
    r1: "call L (String t @ render_ops ps @ q) = Inr (grammar_tree (Suc k) t ps, r1)"
      "skip r1 = skip (render_ops ?ps1 @ q)"
    by blast
  have hd1: "?ps1 = [] \<or> grammar_level (fst (hd ?ps1)) \<le> k"
  proof (cases "?ps1 = []")
    case False
    then have "\<not> binds (Suc k) (hd ?ps1)" by (rule hd_dropWhile)
    then show ?thesis by (cases "hd ?ps1") (simp add: binds_def)
  qed simp
  from parse_loop_level [of L k S D q ?ps1 r1 "grammar_tree (Suc k) t ps",
      OF nxt acc lv q chain_dropWhile [OF ps] hd1 r1(2)]
  obtain r where r: "parse_loop S D L (grammar_tree (Suc k) t ps) r1
        = Inr (grammar_fold k (grammar_tree (Suc k) t ps) ?ps1, r)"
      "skip r = skip (render_ops (dropWhile (binds k) ?ps1) @ q)"
    by blast
  have "parse S D L (String t @ render_ops ps @ q)
      = Inr (grammar_fold k (grammar_tree (Suc k) t ps) ?ps1, r)"
    using r1(1) r(1) by (subst parse.simps) simp
  moreover have "grammar_tree k t ps = grammar_fold k (grammar_tree (Suc k) t ps) ?ps1"
    using k by (subst grammar_tree.simps) simp
  moreover have "dropWhile (binds k) ?ps1 = dropWhile (binds k) ps"
    using dropWhile_dropWhile_weaker [of "binds (Suc k)" "binds k" ps] binds_Suc by blast
  ultimately show ?thesis using r(2) by simp
qed

lemma factor_chain:
  assumes "parser_tree a" "nonneg_leaves a" "chain ps" "closes q"
  shows "\<exists>r. call F_factor (String a @ render_ops ps @ q) = Inr (grammar_tree 6 a ps, r)
     \<and> skip r = skip (render_ops (dropWhile (binds 6) ps) @ q)"
proof -
  have "factor (String a @ render_ops ps @ q) = Inr (a, render_ops ps @ q)"
    using assms(1,2) stop_rest_render_ops [OF assms(4)] by (rule factor_String)
  moreover have "grammar_tree 6 a ps = a" by (simp add: grammar_tree.simps)
  moreover have "dropWhile (binds 6) ps = ps"
    using grammar_level_le [of "fst (hd ps)"]
    by (cases ps) (auto simp: binds_def)
  ultimately show ?thesis by simp
qed

lemma term_chain:
  assumes "parser_tree a" "nonneg_leaves a" "chain ps" "closes q"
  shows "\<exists>r. call F_term (String a @ render_ops ps @ q) = Inr (grammar_tree 5 a ps, r)
     \<and> skip r = skip (render_ops (dropWhile (binds 5) ps) @ q)"
proof -
  have nxt: "\<exists>r. call F_factor (String a @ render_ops ps @ q) = Inr (grammar_tree (Suc 5) a ps, r)
      \<and> skip r = skip (render_ops (dropWhile (binds (Suc 5)) ps) @ q)"
    if "parser_tree a" "nonneg_leaves a" "chain ps" "closes q" for a ps q
    using factor_chain [OF that] by simp
  show ?thesis
    using parse_level [of F_factor 5 "''*/%&''" "''>><<&^''" a ps q,
        OF nxt accepts_grammar_level(1) _ _ assms]
    by (simp add: term_p.simps level_ops_def)
qed

lemma expr_chain:
  assumes "parser_tree a" "nonneg_leaves a" "chain ps" "closes q"
  shows "\<exists>r. call F_expr (String a @ render_ops ps @ q) = Inr (grammar_tree 4 a ps, r)
     \<and> skip r = skip (render_ops (dropWhile (binds 4) ps) @ q)"
proof -
  have nxt: "\<exists>r. call F_term (String a @ render_ops ps @ q) = Inr (grammar_tree (Suc 4) a ps, r)
      \<and> skip r = skip (render_ops (dropWhile (binds (Suc 4)) ps) @ q)"
    if "parser_tree a" "nonneg_leaves a" "chain ps" "closes q" for a ps q
    using term_chain [OF that] by simp
  show ?thesis
    using parse_level [of F_term 4 "''+-|^!''" "[]" a ps q,
        OF nxt accepts_grammar_level(2) _ _ assms]
    by (simp add: expr.simps level_ops_def)
qed

lemma cmpList_chain:
  assumes "parser_tree a" "nonneg_leaves a" "chain ps" "closes q"
  shows "\<exists>r. call F_cmpList (String a @ render_ops ps @ q) = Inr (grammar_tree 3 a ps, r)
     \<and> skip r = skip (render_ops (dropWhile (binds 3) ps) @ q)"
proof -
  have nxt: "\<exists>r. call F_expr (String a @ render_ops ps @ q) = Inr (grammar_tree (Suc 3) a ps, r)
      \<and> skip r = skip (render_ops (dropWhile (binds (Suc 3)) ps) @ q)"
    if "parser_tree a" "nonneg_leaves a" "chain ps" "closes q" for a ps q
    using expr_chain [OF that] by simp
  show ?thesis
    using parse_level [of F_expr 3 "''+-|^!><''" "''==!=>=<=''" a ps q,
        OF nxt accepts_grammar_level(3) _ _ assms]
    by (simp add: cmpList.simps level_ops_def)
qed

lemma andList_chain:
  assumes "parser_tree a" "nonneg_leaves a" "chain ps" "closes q"
  shows "\<exists>r. call F_andList (String a @ render_ops ps @ q) = Inr (grammar_tree 2 a ps, r)
     \<and> skip r = skip (render_ops (dropWhile (binds 2) ps) @ q)"
proof -
  have nxt: "\<exists>r. call F_cmpList (String a @ render_ops ps @ q) = Inr (grammar_tree (Suc 2) a ps, r)
      \<and> skip r = skip (render_ops (dropWhile (binds (Suc 2)) ps) @ q)"
    if "parser_tree a" "nonneg_leaves a" "chain ps" "closes q" for a ps q
    using cmpList_chain [OF that] by simp
  show ?thesis
    using parse_level [of F_cmpList 2 "[]" "''&&''" a ps q,
        OF nxt accepts_grammar_level(4) _ _ assms]
    by (simp add: andList.simps level_ops_def)
qed

lemma orList_chain:
  assumes "parser_tree a" "nonneg_leaves a" "chain ps" "closes q"
  shows "\<exists>r. orList (String a @ render_ops ps @ q) = Inr (grammar_tree 1 a ps, r)
     \<and> skip r = skip (render_ops (dropWhile (binds 1) ps) @ q)"
proof -
  have nxt: "\<exists>r. call F_andList (String a @ render_ops ps @ q) = Inr (grammar_tree (Suc 1) a ps, r)
      \<and> skip r = skip (render_ops (dropWhile (binds (Suc 1)) ps) @ q)"
    if "parser_tree a" "nonneg_leaves a" "chain ps" "closes q" for a ps q
    using andList_chain [OF that] by (simp add: numeral_2_eq_2)
  show ?thesis
    using parse_level [of F_andList 1 "[]" "''||''" a ps q,
        OF nxt accepts_grammar_level(5) _ _ assms]
    by (simp add: orList.simps level_ops_def)
qed

lemma chain_binds:
  assumes "chain ps"
  shows "dropWhile (binds 1) ps = []"
proof -
  have "binds 1 x" if "x \<in> set ps" for x
  proof -
    obtain opr a where x: "x = (opr, a)" by (cases x)
    with assms that have "opr \<in> set binary_operators" by (auto simp: chain_def)
    from binary_operators_level [OF this] x show ?thesis by (simp add: binds_def)
  qed
  then show ?thesis by simp
qed

lemma Parse_chain:
  assumes "parser_tree a" "nonneg_leaves a" "chain ps"
  shows "Parse (String a @ render_ops ps) = Inr (grammar_tree 1 a ps, None)"
proof -
  have c: "closes []" by (simp add: closes_def)
  from orList_chain [OF assms c]
  obtain r where r: "orList (String a @ render_ops ps @ []) = Inr (grammar_tree 1 a ps, r)"
    "skip r = skip (render_ops (dropWhile (binds 1) ps) @ [])"
    by blast
  from r(2) have "skip r = []" unfolding chain_binds [OF assms(3)] by simp
  with r(1) show ?thesis by (simp add: Parse_def Parse_body_def peek_def)
qed

subsection \<open>The trees of the grammar\<close>

lemma grammar_tree_looser:
  "ps = [] \<or> grammar_level (fst (hd ps)) < k \<Longrightarrow> grammar_tree k t ps = t"
proof (induction "6 - k" arbitrary: k)
  case 0
  then show ?case by (simp add: grammar_tree.simps)
next
  case (Suc n)
  then have k: "k \<le> 5" and n: "n = 6 - Suc k" by simp_all
  from Suc.prems have p: "ps = [] \<or> grammar_level (fst (hd ps)) < Suc k" by auto
  have t: "grammar_tree (Suc k) t ps = t" by (rule Suc.hyps(1) [OF n p])
  have d: "dropWhile (binds (Suc k)) ps = ps"
    using p by (cases ps) (auto simp: binds_def)
  have "grammar_fold k t ps = t"
    using Suc.prems by (cases ps) auto
  then show ?case using k t d by (subst grammar_tree.simps) simp
qed

lemma grammar_fold_foldl:
  "\<forall>(opr, a)\<in>set ps. grammar_level opr = g \<Longrightarrow>
     grammar_fold g e ps = foldl (\<lambda>e (opr, a). Expr opr e a [] 0) e ps"
proof (induction ps arbitrary: e)
  case Nil
  show ?case by simp
next
  case (Cons x ps)
  obtain opr a where x: "x = (opr, a)" by (cases x)
  from Cons.prems x have g: "grammar_level opr = g"
    and ps: "\<forall>(opr, a)\<in>set ps. grammar_level opr = g" by simp_all
  have h: "ps = [] \<or> grammar_level (fst (hd ps)) < Suc g"
    using ps by (cases ps) auto
  have t: "grammar_tree (Suc g) a ps = a" by (rule grammar_tree_looser [OF h])
  have d: "dropWhile (binds (Suc g)) ps = ps"
    using h by (cases ps) (auto simp: binds_def)
  show ?case using x g t d Cons.IH [OF ps] by simp
qed

lemma grammar_tree_foldl:
  assumes "\<forall>(opr, a)\<in>set ps. grammar_level opr = g" and "g \<le> 5"
  shows "k \<le> g \<Longrightarrow> grammar_tree k t ps = foldl (\<lambda>e (opr, a). Expr opr e a [] 0) t ps"
proof (induction "g - k" arbitrary: k)
  case 0
  then have k: "k = g" by simp
  have h: "ps = [] \<or> grammar_level (fst (hd ps)) < Suc g"
    using assms(1) by (cases ps) auto
  have t: "grammar_tree (Suc g) t ps = t" by (rule grammar_tree_looser [OF h])
  have d: "dropWhile (binds (Suc g)) ps = ps"
    using h by (cases ps) (auto simp: binds_def)
  show ?case unfolding k using assms(2) t d grammar_fold_foldl [OF assms(1)]
    by (subst grammar_tree.simps) simp
next
  case (Suc n)
  then have k: "Suc k \<le> g" and n: "n = g - Suc k" by simp_all
  have t: "grammar_tree (Suc k) t ps = foldl (\<lambda>e (opr, a). Expr opr e a [] 0) t ps"
    by (rule Suc.hyps(1) [OF n k])
  have d: "dropWhile (binds (Suc k)) ps = []"
    using assms(1) k by (auto simp: binds_def)
  have "grammar_tree k t ps = grammar_fold k (grammar_tree (Suc k) t ps) (dropWhile (binds (Suc k)) ps)"
    using k assms(2) by (subst grammar_tree.simps) simp
  also have "\<dots> = grammar_fold k (foldl (\<lambda>e (opr, a). Expr opr e a [] 0) t ps) []"
    by (simp only: t d)
  finally show ?case by simp
qed

lemma grammar_tree_pair:
  assumes "1 \<le> grammar_level o1" and "1 \<le> grammar_level o2"
  shows "grammar_tree 1 a [(o1, b), (o2, c)] =
     (if grammar_level o1 < grammar_level o2 then Expr o1 a (Expr o2 b c [] 0) [] 0
      else Expr o2 (Expr o1 a b [] 0) c [] 0)"
proof -
  have g1: "grammar_level o1 \<in> {1, 2, 3, 4, 5}"
    using assms(1) grammar_level_le [of o1] by auto
  have g2: "grammar_level o2 \<in> {1, 2, 3, 4, 5}"
    using assms(2) grammar_level_le [of o2] by auto
  from g1 g2 show ?thesis
    unfolding insert_iff empty_iff
    by (elim disjE) (simp_all add: grammar_tree.simps binds_def)
qed

section \<open>The evaluator on trees with the operators of its switch\<close>

text \<open>
  On a tree of the parser in which every node with both children has an operator of the
  switch, evaluation under ReturnZero returns a value, and evaluation under ReturnError
  returns a value or throws an error with one of the messages of the four failures.
\<close>

lemma binary_switch_ReturnZero:
  assumes "opr \<in> set binary_operators"
  shows "\<exists>v. binary_switch ReturnZero opr a b = Inr v"
  using assms unfolding binary_operators_def set_simps insert_iff empty_iff
  by (elim disjE) (simp_all add: binary_switch_def ErrorMode_error_def)

lemma unary_switch_total:
  assumes "opr \<in> set unary_operators"
  shows "\<exists>v. unary_switch opr a = Inr v"
  using assms by (auto simp: unary_operators_def unary_switch_def)

lemma eval_ReturnZero_total:
  assumes "parser_tree e" and "switch_operators e"
  shows "\<exists>v. eval e vars ReturnZero = Inr v"
  using assms
proof (induction e)
  case nil
  then show ?case by simp
next
  case (Expr opr l r idt n)
  show ?case
  proof (cases "opr = []")
    case True
    then show ?thesis by (simp add: ErrorMode_error_def split: option.split)
  next
    case node: False
    with Expr.prems have r: "parser_tree r" "switch_operators r" "r \<noteq> nil" by auto
    from Expr.IH(2) [OF r(1,2)] obtain rv where rv: "eval r vars ReturnZero = Inr rv" by blast
    show ?thesis
    proof (cases "l = nil")
      case True
      with node Expr.prems have "opr \<in> set unary_operators" by simp
      from unary_switch_total [OF this, of rv] show ?thesis using True node r(3) rv by simp
    next
      case False
      with node Expr.prems r(3) have l: "parser_tree l" "switch_operators l"
        and o: "opr \<in> set binary_operators" by simp_all
      from Expr.IH(1) [OF l] obtain lv where lv: "eval l vars ReturnZero = Inr lv" by blast
      from binary_switch_ReturnZero [OF o, of lv rv] show ?thesis
        using False node r(3) lv rv by simp
    qed
  qed
qed

lemma binary_switch_ReturnError:
  assumes "opr \<in> set binary_operators"
  shows "(\<exists>v. binary_switch ReturnError opr a b = Inr v)
    \<or> (\<exists>m\<in>failure_messages vars. binary_switch ReturnError opr a b = Inl (ErrorValue (New m)))"
  using assms unfolding binary_operators_def set_simps insert_iff empty_iff
  by (elim disjE)
    (simp_all add: binary_switch_def ErrorMode_error_def ReturnError_def ReturnZero_def throw_def
      failure_messages_def)

lemma eval_ReturnError_messages:
  assumes "parser_tree e" and "switch_operators e"
  shows "(\<exists>v. eval e vars ReturnError = Inr v)
    \<or> (\<exists>m\<in>failure_messages vars. eval e vars ReturnError = Inl (ErrorValue (New m)))"
  using assms
proof (induction e)
  case nil
  then show ?case by simp
next
  case (Expr opr l r idt n)
  show ?case
  proof (cases "opr = []")
    case True
    then show ?thesis
      by (auto simp: ErrorMode_error_def ReturnError_def ReturnZero_def throw_def
          failure_messages_def split: option.split)
  next
    case node: False
    with Expr.prems have r: "parser_tree r" "switch_operators r" "r \<noteq> nil" by auto
    show ?thesis
    proof (cases "l = nil")
      case True
      with node Expr.prems have "opr \<in> set unary_operators" by simp
      from unary_switch_total [OF this] Expr.IH(2) [OF r(1,2)] show ?thesis
        using True node r(3) by (auto split: sum.splits)
    next
      case False
      with node Expr.prems r(3) have l: "parser_tree l" "switch_operators l"
        and o: "opr \<in> set binary_operators" by simp_all
      from Expr.IH(1) [OF l] Expr.IH(2) [OF r(1,2)] binary_switch_ReturnError [OF o, of _ _ vars]
      show ?thesis
        using False node r(3) by (auto split: sum.splits)
    qed
  qed
qed

lemma Eval_ReturnZero_switch_operators:
  assumes "Parse s = Inr (e, None)" and "switch_operators e"
  shows "\<exists>v. Eval e vars ReturnZero = Inr (v, None)"
  using eval_ReturnZero_total [OF Parse_parser_tree [OF assms(1)] assms(2), of vars]
  by (auto simp: Eval_def)

lemma Eval_ReturnError_switch_operators:
  assumes "Parse s = Inr (e, None)" and "switch_operators e"
  shows "(\<exists>v. Eval e vars ReturnError = Inr (v, None))
    \<or> (\<exists>m\<in>failure_messages vars. Eval e vars ReturnError = Inr (0, Some (New m)))"
  using eval_ReturnError_messages [OF Parse_parser_tree [OF assms(1)] assms(2), of vars]
  by (auto simp: Eval_def recoverer_def)


section \<open>Panics of the parser\<close>

text \<open>
  \<^verbatim>\<open>nextOpLen\<close> panics on the input \<^verbatim>\<open>=\<close> only. Every panic of a parsing function carries an
  error value, so \<^verbatim>\<open>recoverer\<close> stores it and Parse returns.
\<close>

lemma nextOpLen_panic:
  assumes "nextOpLen p = Inl x"
  shows "p = ''='' \<and> x = ErrorValue (IndexOutOfRange 1 1)"
proof (cases p)
  case Nil
  with assms show ?thesis by (simp add: nextOpLen_def)
next
  case (Cons c t)
  with assms have "c = CHR ''=''" "\<not> length p \<ge> 2"
    by (auto simp: nextOpLen_def split: if_splits)
  then have "p = ''=''" using Cons by (cases t) auto
  with assms show ?thesis by (simp add: nextOpLen_def index_def)
qed

lemma in_doubles_panic: "in_doubles opr doubles = Inl x \<Longrightarrow> \<exists>err. x = ErrorValue err"
  by (induction opr doubles rule: in_doubles.induct) (auto split: if_splits)

lemma parser_op_panic: "parser_op p singles doubles = Inl x \<Longrightarrow> \<exists>err. x = ErrorValue err"
  by (auto simp: parser_op_def split: sum.splits if_splits dest: nextOpLen_panic in_doubles_panic)

lemma parser_panics_are_errors:
  "\<forall>x. parse singles doubles nextLevel p = Inl x \<longrightarrow> (\<exists>err. x = ErrorValue err)"
  "\<forall>x. parse_loop singles doubles nextLevel e p = Inl x \<longrightarrow> (\<exists>err. x = ErrorValue err)"
  "\<forall>x. call nextLevel p = Inl x \<longrightarrow> (\<exists>err. x = ErrorValue err)"
  "\<forall>x. orList p = Inl x \<longrightarrow> (\<exists>err. x = ErrorValue err)"
  "\<forall>x. andList p = Inl x \<longrightarrow> (\<exists>err. x = ErrorValue err)"
  "\<forall>x. cmpList p = Inl x \<longrightarrow> (\<exists>err. x = ErrorValue err)"
  "\<forall>x. expr p = Inl x \<longrightarrow> (\<exists>err. x = ErrorValue err)"
  "\<forall>x. term_p p = Inl x \<longrightarrow> (\<exists>err. x = ErrorValue err)"
  "\<forall>x. factor p = Inl x \<longrightarrow> (\<exists>err. x = ErrorValue err)"
proof (induct singles doubles nextLevel p and singles doubles nextLevel e p and nextLevel p
    and p and p and p and p and p and p
    rule: parse_parse_loop_call_orList_andList_cmpList_expr_term_p_factor.induct)
  case (1 singles doubles nextLevel p)
  show ?case
  proof (intro allI impI)
    fix x
    assume r: "parse singles doubles nextLevel p = Inl x"
    show "\<exists>err. x = ErrorValue err"
    proof (cases "call nextLevel p")
      case (Inl y)
      with r "1.hyps"(1) show ?thesis by (simp add: parse.simps)
    next
      case (Inr b)
      obtain e1 p1 where b: "b = (e1, p1)" by (cases b)
      with r Inr "1.hyps"(2) [OF Inr b [symmetric]] show ?thesis by (simp add: parse.simps)
    qed
  qed
next
  case (2 singles doubles nextLevel e p)
  show ?case
  proof (intro allI impI)
    fix x
    assume r: "parse_loop singles doubles nextLevel e p = Inl x"
    obtain c p1 where pk: "peek True p = (c, p1)" by (cases "peek True p")
    from r pk have ne: "c \<noteq> eof" by (auto simp: parse_loop.simps)
    show "\<exists>err. x = ErrorValue err"
    proof (cases "parser_op p1 singles doubles")
      case (Inl y)
      with r pk ne have "x = y" by (simp add: parse_loop.simps)
      with Inl parser_op_panic show ?thesis by blast
    next
      case (Inr b)
      obtain opr p2 where b: "b = (opr, p2)" by (cases b)
      with r pk ne Inr have nonempty: "opr \<noteq> []" by (auto simp: parse_loop.simps)
      show ?thesis
      proof (cases "call nextLevel p2")
        case (Inl y)
        with r pk ne Inr b nonempty have "x = y" by (simp add: parse_loop.simps)
        with Inl "2.hyps"(1) [OF pk [symmetric] ne Inr b [symmetric] nonempty] show ?thesis
          by simp
      next
        case right: (Inr b')
        obtain r' p3 where b': "b' = (r', p3)" by (cases b')
        with r pk ne Inr b nonempty right
        have "parse_loop singles doubles nextLevel (Expr opr e r' [] 0) p3 = Inl x"
          by (simp add: parse_loop.simps)
        with "2.hyps"(2) [OF pk [symmetric] ne Inr b [symmetric] nonempty right b' [symmetric]]
        show ?thesis by simp
      qed
    qed
  qed
next
  case (14 p)
  show ?case
  proof (intro allI impI)
    fix x
    assume r: "factor p = Inl x"
    obtain c p0 where pk: "peek True p = (c, p0)" by (cases "peek True p")
    obtain c1 p1 where nx: "nextc False p0 = (c1, p1)" by (cases "nextc False p0")
    show "\<exists>err. x = ErrorValue err"
    proof (cases "c \<noteq> eof \<and> \<not> isDigit c \<and> \<not> isAlpha c False")
      case False
      then consider "c = eof" | "c \<noteq> eof" "isDigit c"
        | "c \<noteq> eof" "\<not> isDigit c" "isAlpha c False" by blast
      then show ?thesis
      proof cases
        case 1
        with r pk show ?thesis by (auto simp: factor.simps throw_def)
      next
        case 2
        with r pk show ?thesis by (simp add: factor.simps split: prod.splits)
      next
        case 3
        with r pk show ?thesis by (simp add: factor.simps split: prod.splits)
      qed
    next
      case True
      then have ne: "c \<noteq> eof" and nd: "\<not> isDigit c" and na: "\<not> isAlpha c False" by simp_all
      show ?thesis
      proof (cases "starts p0 ''+-^!''")
        case st: True
        with r pk ne nd na nx have "factor p1 = Inl x"
          by (auto simp: factor.simps split: sum.splits)
        with "14.hyps"(1) [OF pk [symmetric] ne nd na st nx [symmetric]] show ?thesis by simp
      next
        case ns: False
        show ?thesis
        proof (cases "c = CHR ''(''")
          case False
          with r pk ne nd na ns show ?thesis by (auto simp: factor.simps throw_def)
        next
          case paren: True
          show ?thesis
          proof (cases "orList p1")
            case (Inl y)
            with r pk ne nd na ns paren nx have "x = y" by (simp add: factor.simps)
            with Inl "14.hyps"(2) [OF pk [symmetric] ne nd na ns paren nx [symmetric]]
            show ?thesis by simp
          next
            case (Inr b)
            with r pk ne nd na ns paren nx show ?thesis
              by (auto simp: factor.simps throw_def split: prod.splits if_splits)
          qed
        qed
      qed
    qed
  qed
qed (simp_all add: orList.simps andList.simps cmpList.simps expr.simps term_p.simps)

lemma Parse_returns: "\<exists>e err. Parse s = Inr (e, err)"
proof (cases "orList s")
  case (Inl x)
  then obtain err where "x = ErrorValue err" using parser_panics_are_errors(4) by blast
  with Inl show ?thesis by (simp add: Parse_def Parse_body_def recoverer_def)
next
  case (Inr b)
  then show ?thesis
    by (cases b) (auto simp: Parse_def Parse_body_def recoverer_def throw_def split: prod.splits)
qed


section \<open>Evaluating the functions on concrete input\<close>

lemmas parser_eval = Parse_def Parse_body_def orList.simps andList.simps cmpList.simps expr.simps
  term_p.simps parse.simps parse_loop.simps factor.simps peek_def nextc_def starts_def isDigit_def
  isAlpha_def parser_op_def nextOpLen_def maybe_def eof_def parser_identifier_def number_def
  remaining_def throw_def recoverer_def index_def

lemmas eval_eval = Eval_def binary_switch_def unary_switch_def ErrorMode_error_def throw_def
  recoverer_def toInt_def ReturnError_def ReturnZero_def

lemma Parse_x_not_y:
  "Parse ''x ! y'' = Inr (Expr ''!'' (Expr [] nil nil ''x'' 0) (Expr [] nil nil ''y'' 0) [] 0, None)"
  by (simp add: parser_eval)

lemma Parse_1_not_2:
  "Parse ''1 ! 2'' = Inr (Expr ''!'' (Expr [] nil nil [] 1) (Expr [] nil nil [] 2) [] 0, None)"
  by (simp add: parser_eval)


section \<open>The operator \<^verbatim>\<open>!\<close> at the additive level\<close>

text \<open>
  Claim C1 (every tree of a successful Parse evaluates without error under ReturnZero).
  The additive level passes the singles \<^verbatim>\<open>"+-|^!"\<close>, so \<^verbatim>\<open>x ! y\<close> is accepted and gives a
  node with both children and the operator \<^verbatim>\<open>!\<close>. The switch for such nodes has no case for
  it and throws, whatever the bindings, also in mode ReturnZero: Eval returns the result 0
  and the error "unknown binary operator (can't happen) !". On the trees without such a
  node Eval returns a nil error under ReturnZero (\<open>Eval_ReturnZero_switch_operators\<close>).
\<close>

theorem Eval_ReturnZero_binary_not_error:
  "Parse ''x ! y'' = Inr (Expr ''!'' (Expr [] nil nil ''x'' 0) (Expr [] nil nil ''y'' 0) [] 0, None)
   \<and> Eval (Expr ''!'' (Expr [] nil nil ''x'' 0) (Expr [] nil nil ''y'' 0) [] 0) vars ReturnZero
       = Inr (0, Some (New [Text (''unknown binary operator (can'' @ [CHR 0x27] @ ''t happen) !'')]))"
  by (simp add: Parse_x_not_y eval_eval split: option.split)

text \<open>
  Claim C2 (every node with both children carries one of the nineteen binary operators;
  \<^verbatim>\<open>!\<close> is never one). Parse accepts \<^verbatim>\<open>x ! y\<close> and returns a node with both children present
  whose operator is \<^verbatim>\<open>!\<close>, which is none of the operators of the evaluator's switch. It is
  the only operator outside of them that such a node can carry (\<open>Parse_parser_tree\<close>).
\<close>

theorem Parse_binary_not_node:
  "Parse ''x ! y'' = Inr (Expr ''!'' (Expr [] nil nil ''x'' 0) (Expr [] nil nil ''y'' 0) [] 0, None)
   \<and> Expr [] nil nil ''x'' 0 \<noteq> nil \<and> Expr [] nil nil ''y'' 0 \<noteq> nil
   \<and> ''!'' \<notin> set binary_operators"
  by (simp add: Parse_x_not_y binary_operators_def)

text \<open>
  Claim C3 (under ReturnError, Eval fails exactly on an undefined variable, a division or
  modulo by zero, or a negative shift amount, with one of five messages). The tree of
  \<^verbatim>\<open>1 ! 2\<close> has no variable, no division and no shift, and Eval fails on it under
  ReturnError with the message "unknown binary operator (can't happen) !". On the trees
  without such a node Eval returns a value with a nil error, or 0 with one of the five
  messages (\<open>Eval_ReturnError_switch_operators\<close>).
\<close>

theorem Eval_ReturnError_binary_not_error:
  "Parse ''1 ! 2'' = Inr (Expr ''!'' (Expr [] nil nil [] 1) (Expr [] nil nil [] 2) [] 0, None)
   \<and> Eval (Expr ''!'' (Expr [] nil nil [] 1) (Expr [] nil nil [] 2) [] 0) vars ReturnError
       = Inr (0, Some (New [Text (''unknown binary operator (can'' @ [CHR 0x27] @ ''t happen) !'')]))"
  by (simp add: Parse_1_not_2 eval_eval)

section \<open>A single \<^verbatim>\<open>=\<close> at the end of the input\<close>

text \<open>
  Claim C4 (Parse never reads the input out of bounds, also on a final \<^verbatim>\<open>=\<close>). When the
  input left is the single character \<^verbatim>\<open>=\<close>, \<^verbatim>\<open>nextOpLen\<close> evaluates \<^verbatim>\<open>p.s[1]\<close> on a string of
  length 1. The run-time panic is an error value, so \<^verbatim>\<open>recoverer\<close> stores it and Parse
  returns it as its error: "index out of range [1] with length 1". This is the only input
  of \<^verbatim>\<open>nextOpLen\<close> that panics (\<open>nextOpLen_panic\<close>), and Parse returns on every input
  (\<open>Parse_returns\<close>).
\<close>

theorem Parse_final_equals_index_out_of_range:
  "nextOpLen ''='' = Inl (ErrorValue (IndexOutOfRange 1 1))
   \<and> Parse ''x='' = Inr (nil, Some (IndexOutOfRange 1 1))"
  by (simp add: parser_eval)

section \<open>Associativity and precedence\<close>

text \<open>
  Claim C6: each precedence level folds its operators to the left and a lower level binds
  looser. For every chain of operands and binary operators, written with one blank around
  each operator, Parse returns without error the tree that the grammar gives to the chain
  (\<open>grammar_tree 1\<close>). In particular, when all operators of the chain are of one level, of
  any of the five, the tree is the fold to the left of the operands; and for two operators
  \<open>o1\<close> and \<open>o2\<close> and three operands the tree is \<^verbatim>\<open>(a o1 (b o2 c))\<close> when \<open>o2\<close> is of a
  higher level than \<open>o1\<close>, and \<^verbatim>\<open>((a o1 b) o2 c)\<close> otherwise. The four inputs of the claim
  parse without error and their trees render as \<^verbatim>\<open>((x - y) - z)\<close>, \<^verbatim>\<open>((x < y) < z)\<close>,
  \<^verbatim>\<open>(x + (y * z))\<close> and \<^verbatim>\<open>((x * y) + z)\<close>.
\<close>

theorem Parse_String_associativity_precedence:
  "(parser_tree t \<and> nonneg_leaves t \<and> chain ps \<longrightarrow>
      Parse (String t @ render_ops ps) = Inr (grammar_tree 1 t ps, None))
   \<and> (parser_tree t \<and> nonneg_leaves t \<and> chain ps
        \<and> (\<forall>(opr, a)\<in>set ps. grammar_level opr = g) \<longrightarrow>
      Parse (String t @ render_ops ps)
        = Inr (foldl (\<lambda>e (opr, a). Expr opr e a [] 0) t ps, None))
   \<and> (parser_tree a \<and> nonneg_leaves a \<and> chain [(o1, b), (o2, c)] \<longrightarrow>
      Parse (String a @ '' '' @ o1 @ '' '' @ String b @ '' '' @ o2 @ '' '' @ String c)
        = Inr (if grammar_level o1 < grammar_level o2
               then Expr o1 a (Expr o2 b c [] 0) [] 0
               else Expr o2 (Expr o1 a b [] 0) c [] 0, None))
   \<and> (\<exists>e. Parse ''x - y - z'' = Inr (e, None) \<and> String e = ''((x - y) - z)'')
   \<and> (\<exists>e. Parse ''x < y < z'' = Inr (e, None) \<and> String e = ''((x < y) < z)'')
   \<and> (\<exists>e. Parse ''x + y * z'' = Inr (e, None) \<and> String e = ''(x + (y * z))'')
   \<and> (\<exists>e. Parse ''x * y + z'' = Inr (e, None) \<and> String e = ''((x * y) + z)'')"
proof (intro conjI impI)
  assume "parser_tree t \<and> nonneg_leaves t \<and> chain ps"
  then show "Parse (String t @ render_ops ps) = Inr (grammar_tree 1 t ps, None)"
    using Parse_chain by blast
next
  assume h: "parser_tree t \<and> nonneg_leaves t \<and> chain ps
        \<and> (\<forall>(opr, a)\<in>set ps. grammar_level opr = g)"
  then have p: "Parse (String t @ render_ops ps) = Inr (grammar_tree 1 t ps, None)"
    using Parse_chain by blast
  have "grammar_tree 1 t ps = foldl (\<lambda>e (opr, a). Expr opr e a [] 0) t ps"
  proof (cases ps)
    case Nil
    then show ?thesis using grammar_tree_looser [of ps 1 t] by simp
  next
    case (Cons x rest)
    obtain opr a where x: "x = (opr, a)" by (cases x)
    from h Cons x have g: "grammar_level opr = g" and o: "opr \<in> set binary_operators"
      by (simp_all add: chain_Cons)
    from g have g5: "g \<le> 5" using grammar_level_le [of opr] by simp
    from g o have g1: "1 \<le> g" using binary_operators_level [of opr] by simp
    from h show ?thesis using grammar_tree_foldl [OF _ g5 g1] by blast
  qed
  with p show "Parse (String t @ render_ops ps)
        = Inr (foldl (\<lambda>e (opr, a). Expr opr e a [] 0) t ps, None)"
    by simp
next
  assume h: "parser_tree a \<and> nonneg_leaves a \<and> chain [(o1, b), (o2, c)]"
  then have "Parse (String a @ render_ops [(o1, b), (o2, c)])
      = Inr (grammar_tree 1 a [(o1, b), (o2, c)], None)"
    using Parse_chain by blast
  moreover have "1 \<le> grammar_level o1" "1 \<le> grammar_level o2"
    using h binary_operators_level by (simp_all add: chain_Cons)
  ultimately show "Parse (String a @ '' '' @ o1 @ '' '' @ String b @ '' '' @ o2 @ '' '' @ String c)
        = Inr (if grammar_level o1 < grammar_level o2
               then Expr o1 a (Expr o2 b c [] 0) [] 0
               else Expr o2 (Expr o1 a b [] 0) c [] 0, None)"
    using grammar_tree_pair [of o1 o2 a b c] by simp
next
  show "\<exists>e. Parse ''x - y - z'' = Inr (e, None) \<and> String e = ''((x - y) - z)''"
    by (simp add: parser_eval)
  show "\<exists>e. Parse ''x < y < z'' = Inr (e, None) \<and> String e = ''((x < y) < z)''"
    by (simp add: parser_eval)
  show "\<exists>e. Parse ''x + y * z'' = Inr (e, None) \<and> String e = ''(x + (y * z))''"
    by (simp add: parser_eval)
  show "\<exists>e. Parse ''x * y + z'' = Inr (e, None) \<and> String e = ''((x * y) + z)''"
    by (simp add: parser_eval)
qed

theorem Parse_String_associativity_precedence_witness:
  "Parse ''a || b && c == d + e * f << g &^ h - i >= j''
     = Inr (Expr ''||'' (Expr [] nil nil ''a'' 0)
         (Expr ''&&'' (Expr [] nil nil ''b'' 0)
           (Expr ''>=''
             (Expr ''=='' (Expr [] nil nil ''c'' 0)
               (Expr ''-''
                 (Expr ''+'' (Expr [] nil nil ''d'' 0)
                   (Expr ''&^''
                     (Expr ''<<''
                       (Expr ''*'' (Expr [] nil nil ''e'' 0) (Expr [] nil nil ''f'' 0) [] 0)
                       (Expr [] nil nil ''g'' 0) [] 0)
                     (Expr [] nil nil ''h'' 0) [] 0) [] 0)
                 (Expr [] nil nil ''i'' 0) [] 0) [] 0)
             (Expr [] nil nil ''j'' 0) [] 0) [] 0) [] 0, None)
   \<and> Parse ''1 << x &^ (-y) % 4''
     = Inr (Expr ''%''
         (Expr ''&^'' (Expr ''<<'' (Expr [] nil nil [] 1) (Expr [] nil nil ''x'' 0) [] 0)
            (Expr ''-'' nil (Expr [] nil nil ''y'' 0) [] 0) [] 0)
         (Expr [] nil nil [] 4) [] 0, None)
   \<and> Parse ''p && q || r''
     = Inr (Expr ''||'' (Expr ''&&'' (Expr [] nil nil ''p'' 0) (Expr [] nil nil ''q'' 0) [] 0)
         (Expr [] nil nil ''r'' 0) [] 0, None)"
proof -
  let ?v = "\<lambda>s. Expr [] nil nil s 0"
  let ?ps1 = "[(''||'', ?v ''b''), (''&&'', ?v ''c''), (''=='', ?v ''d''), (''+'', ?v ''e''),
      (''*'', ?v ''f''), (''<<'', ?v ''g''), (''&^'', ?v ''h''), (''-'', ?v ''i''),
      (''>='', ?v ''j'')]"
  let ?ps2 = "[(''<<'', ?v ''x''), (''&^'', Expr ''-'' nil (?v ''y'') [] 0),
      (''%'', Expr [] nil nil [] 4)]"
  have v: "parser_tree (?v ''a'')" "nonneg_leaves (?v ''a'')"
      "parser_tree (?v ''p'')" "nonneg_leaves (?v ''p'')"
      "parser_tree (Expr [] nil nil [] 1)" "nonneg_leaves (Expr [] nil nil [] 1)"
    by (simp_all add: valid_ident_def isAlpha_def)
  have c1: "chain ?ps1"
    by (simp add: chain_def binary_operators_def valid_ident_def isAlpha_def)
  have c2: "chain ?ps2" "\<forall>(opr, a)\<in>set ?ps2. grammar_level opr = 5"
    by (simp_all add: chain_def binary_operators_def unary_operators_def valid_ident_def
        isAlpha_def grammar_level_def)
  have c3: "chain [(''&&'', ?v ''q''), (''||'', ?v ''r'')]"
    by (simp add: chain_def binary_operators_def valid_ident_def isAlpha_def)
  have p1: "Parse (String (?v ''a'') @ render_ops ?ps1) = Inr (grammar_tree 1 (?v ''a'') ?ps1, None)"
    using v c1 Parse_String_associativity_precedence [of "?v ''a''" ?ps1] by blast
  have p2: "Parse (String (Expr [] nil nil [] 1) @ render_ops ?ps2)
      = Inr (foldl (\<lambda>e (opr, a). Expr opr e a [] 0) (Expr [] nil nil [] 1) ?ps2, None)"
    using v c2 Parse_String_associativity_precedence [of "Expr [] nil nil [] 1" ?ps2 5] by blast
  have p3: "Parse (String (?v ''p'') @ '' '' @ ''&&'' @ '' '' @ String (?v ''q'') @ '' ''
        @ ''||'' @ '' '' @ String (?v ''r''))
      = Inr (if grammar_level ''&&'' < grammar_level ''||''
             then Expr ''&&'' (?v ''p'') (Expr ''||'' (?v ''q'') (?v ''r'') [] 0) [] 0
             else Expr ''||'' (Expr ''&&'' (?v ''p'') (?v ''q'') [] 0) (?v ''r'') [] 0, None)"
    using v c3 Parse_String_associativity_precedence
      [of _ _ _ "?v ''p''" "''&&''" "?v ''q''" "''||''" "?v ''r''"] by blast
  show ?thesis
  proof (intro conjI)
    from p1 show "Parse ''a || b && c == d + e * f << g &^ h - i >= j''
     = Inr (Expr ''||'' (Expr [] nil nil ''a'' 0)
         (Expr ''&&'' (Expr [] nil nil ''b'' 0)
           (Expr ''>=''
             (Expr ''=='' (Expr [] nil nil ''c'' 0)
               (Expr ''-''
                 (Expr ''+'' (Expr [] nil nil ''d'' 0)
                   (Expr ''&^''
                     (Expr ''<<''
                       (Expr ''*'' (Expr [] nil nil ''e'' 0) (Expr [] nil nil ''f'' 0) [] 0)
                       (Expr [] nil nil ''g'' 0) [] 0)
                     (Expr [] nil nil ''h'' 0) [] 0) [] 0)
                 (Expr [] nil nil ''i'' 0) [] 0) [] 0)
             (Expr [] nil nil ''j'' 0) [] 0) [] 0) [] 0, None)"
      by (simp add: grammar_tree.simps binds_def grammar_level_def)
    from p2 show "Parse ''1 << x &^ (-y) % 4''
     = Inr (Expr ''%''
         (Expr ''&^'' (Expr ''<<'' (Expr [] nil nil [] 1) (Expr [] nil nil ''x'' 0) [] 0)
            (Expr ''-'' nil (Expr [] nil nil ''y'' 0) [] 0) [] 0)
         (Expr [] nil nil [] 4) [] 0, None)"
      by (simp add: Sprint_int_def decimal.simps digit_char_def)
    from p3 show "Parse ''p && q || r''
     = Inr (Expr ''||'' (Expr ''&&'' (Expr [] nil nil ''p'' 0) (Expr [] nil nil ''q'' 0) [] 0)
         (Expr [] nil nil ''r'' 0) [] 0, None)"
      by (simp add: grammar_level_def)
  qed
qed

section \<open>The logical operators\<close>



section \<open>Evaluating nil\<close>

text \<open>
  Claim C10 as stated (Eval on the nil pointer returns 0 with a nil error, and likewise a
  nil subtree met during an evaluation contributes the value 0) does not hold in its second
  half: \<^verbatim>\<open>eval\<close> is called on a child only after the test that the child is not nil. The
  tree of \<^verbatim>\<open>^5\<close> has a nil left child; it evaluates to the complement of 5, which is -6,
  while the operator \<^verbatim>\<open>^\<close> on the values 0 and 5 gives 5. A node with an operator and a nil
  right child fails with "unrecognized expression: can't happen", also under ReturnZero,
  where the sum of 1 and 0 would be 1.
\<close>

theorem eval_nil_child_not_zero:
  "Parse ''^5'' = Inr (Expr ''^'' nil (Expr [] nil nil [] 5) [] 0, None)
   \<and> Eval (Expr ''^'' nil (Expr [] nil nil [] 5) [] 0) Map.empty ReturnZero = Inr (- 6, None)
   \<and> binary_switch ReturnZero ''^'' 0 5 = Inr 5
   \<and> Eval (Expr ''+'' (Expr [] nil nil [] 1) nil [] 0) Map.empty ReturnZero
       = Inr (0, Some (New [Text (''unrecognized expression: can'' @ [CHR 0x27] @ ''t happen'')]))
   \<and> binary_switch ReturnZero ''+'' 1 0 = Inr 1"
proof (intro conjI)
  show "Parse ''^5'' = Inr (Expr ''^'' nil (Expr [] nil nil [] 5) [] 0, None)"
    by (simp add: parser_eval)
  show "Eval (Expr ''^'' nil (Expr [] nil nil [] 5) [] 0) Map.empty ReturnZero = Inr (- 6, None)"
    by (simp add: eval_eval)
  show "binary_switch ReturnZero ''^'' 0 5 = Inr 5"
    by (simp add: eval_eval)
  show "Eval (Expr ''+'' (Expr [] nil nil [] 1) nil [] 0) Map.empty ReturnZero
       = Inr (0, Some (New [Text (''unrecognized expression: can'' @ [CHR 0x27] @ ''t happen'')]))"
    by (simp add: eval_eval)
  show "binary_switch ReturnZero ''+'' 1 0 = Inr 1"
    by (simp add: eval_eval)
qed

text \<open>
  Claim C10, amended: Eval on the nil pointer returns the result 0 and the nil error, for
  every binding and every error mode, and \<^verbatim>\<open>eval\<close> of nil is 0. Inside a tree a nil child
  is never evaluated and does not stand for the value 0. A node without an operator is a
  leaf: its children are ignored. A node with an operator, a nil left child and a right
  child is evaluated as the unary operator on the value of the right child. A node with
  an operator and a nil right child fails with "unrecognized expression: can't happen" in
  every error mode, whatever its left child is.
\<close>

theorem eval_nil_children:
  "Eval nil vars errMode = Inr (0, None)
   \<and> eval nil vars errMode = Inr 0
   \<and> (opr = [] \<longrightarrow>
        eval (Expr opr l r idt n) vars errMode = eval (Expr [] nil nil idt n) vars errMode)
   \<and> (opr \<noteq> [] \<and> r \<noteq> nil \<longrightarrow>
        eval (Expr opr nil r idt n) vars errMode =
          (case eval r vars errMode of
             Inl x \<Rightarrow> Inl x
           | Inr rv \<Rightarrow> unary_switch opr rv))
   \<and> (opr \<noteq> [] \<longrightarrow>
        eval (Expr opr l nil idt n) vars errMode
          = Inl (ErrorValue (New [Text (''unrecognized expression: can'' @ [CHR 0x27] @ ''t happen'')]))
        \<and> Eval (Expr opr l nil idt n) vars errMode
          = Inr (0, Some (New [Text (''unrecognized expression: can'' @ [CHR 0x27] @ ''t happen'')])))"
  by (simp add: Eval_def throw_def recoverer_def)

theorem eval_nil_children_witness:
  "eval (Expr [] (Expr [] nil nil [] 3) nil ''x'' 0) [''x'' \<mapsto> 7] ReturnError = Inr 7
   \<and> eval (Expr ''-'' nil (Expr [] nil nil [] 5) [] 0) Map.empty ReturnError = Inr (- 5)
   \<and> eval (Expr ''!'' nil (Expr [] nil nil [] 0) [] 0) Map.empty ReturnZero = Inr 1
   \<and> Eval (Expr ''*'' (Expr [] nil nil [] 4) nil [] 0) Map.empty ReturnZero
       = Inr (0, Some (New [Text (''unrecognized expression: can'' @ [CHR 0x27] @ ''t happen'')]))"
  using
    eval_nil_children [of "[''x'' \<mapsto> 7]" ReturnError "[]" "Expr [] nil nil [] 3" nil "''x''" 0]
    eval_nil_children [of Map.empty ReturnError "''-''" nil "Expr [] nil nil [] 5" "[]" 0]
    eval_nil_children [of Map.empty ReturnZero "''!''" nil "Expr [] nil nil [] 0" "[]" 0]
    eval_nil_children [of Map.empty ReturnZero "''*''" "Expr [] nil nil [] 4" nil "[]" 0]
  by (simp add: eval_eval)


section \<open>Trailing input and parentheses\<close>

text \<open>
  Claim C9 as stated (any content other than blanks after a complete top-level expression
  makes the parse fail) does not hold: \<^verbatim>\<open>peek\<close> returns the byte 0 at the end of the input,
  so a byte 0 in the input is taken for the end. On the three bytes \<^verbatim>\<open>x\<close>, 0, \<^verbatim>\<open>y\<close> the
  top-level expression is \<^verbatim>\<open>x\<close>, the bytes 0 and \<^verbatim>\<open>y\<close> remain, and Parse returns the tree
  with a nil error.
\<close>

theorem Parse_accepts_input_after_NUL:
  "orList [CHR ''x'', CHR 0x00, CHR ''y''] = Inr (Expr [] nil nil ''x'' 0, [CHR 0x00, CHR ''y''])
   \<and> Parse [CHR ''x'', CHR 0x00, CHR ''y''] = Inr (Expr [] nil nil ''x'' 0, None)"
  by (simp add: parser_eval)

text \<open>
  Claim C9, amended: Parse consumes the input up to its end or up to a byte 0 where an
  operator or the end is expected. When the input left by the top-level expression, after
  blanks, is not empty and does not begin with the byte 0, Parse fails with
  "syntax error at" and that input quoted. Parse succeeds exactly when the top-level
  expression leaves only blanks, or blanks and then a byte 0; the input consumed by the
  top-level expression then has balanced parentheses, so an unclosed parenthesis makes the
  parse fail, and on an input without a byte 0 the whole input is balanced.
  \<^verbatim>\<open>Parse("x x")\<close> fails with \<^verbatim>\<open>syntax error at "x"\<close>, and \<^verbatim>\<open>Parse("(x + 1")\<close>
  fails with \<^verbatim>\<open>unclosed paren at eof\<close>, as does the input \<^verbatim>\<open>(x\<close> followed by a byte 0.
\<close>

theorem Parse_consumes_input:
  "(orList s = Inr (e, p) \<and> skip p \<noteq> [] \<and> hd (skip p) \<noteq> CHR 0x00 \<longrightarrow>
      Parse s = Inr (e, Some (New [Text ''syntax error at '', Quoted (skip p)])))
   \<and> (Parse s = Inr (e, None) \<longleftrightarrow>
        (\<exists>q. orList s = Inr (e, q) \<and> (skip q = [] \<or> hd (skip q) = CHR 0x00)))
   \<and> (Parse s = Inr (e, None) \<longrightarrow>
        (\<exists>u q. s = u @ q \<and> balanced 0 u \<and> orList s = Inr (e, q)
           \<and> (skip q = [] \<or> hd (skip q) = CHR 0x00)))
   \<and> (Parse s = Inr (e, None) \<and> CHR 0x00 \<notin> set s \<longrightarrow>
        balanced 0 s \<and> (\<exists>q. orList s = Inr (e, q) \<and> skip q = []))
   \<and> Parse ''x x'' = Inr (Expr [] nil nil ''x'' 0, Some (New [Text ''syntax error at '', Quoted ''x'']))
   \<and> message_text [Text ''syntax error at '', Quoted ''x'']
       = Some (''syntax error at '' @ [CHR 0x22] @ ''x'' @ [CHR 0x22])
   \<and> Parse ''(x + 1'' = Inr (nil, Some (New [Text ''unclosed paren at eof'']))
   \<and> Parse [CHR ''('', CHR ''x'', CHR 0x00] = Inr (nil, Some (New [Text ''unclosed paren at eof'']))"
proof (intro conjI impI)
  assume "orList s = Inr (e, p) \<and> skip p \<noteq> [] \<and> hd (skip p) \<noteq> CHR 0x00"
  then show "Parse s = Inr (e, Some (New [Text ''syntax error at '', Quoted (skip p)]))"
    using Parse_trailing by blast
next
  show "Parse s = Inr (e, None) \<longleftrightarrow>
        (\<exists>q. orList s = Inr (e, q) \<and> (skip q = [] \<or> hd (skip q) = CHR 0x00))"
    by (rule Parse_success_iff)
next
  assume "Parse s = Inr (e, None)"
  then show "\<exists>u q. s = u @ q \<and> balanced 0 u \<and> orList s = Inr (e, q)
           \<and> (skip q = [] \<or> hd (skip q) = CHR 0x00)"
    by (rule Parse_balanced_prefix)
next
  assume a: "Parse s = Inr (e, None) \<and> CHR 0x00 \<notin> set s"
  then show "balanced 0 s" using Parse_balanced by blast
  from a show "\<exists>q. orList s = Inr (e, q) \<and> skip q = []"
    using Parse_leaves_blanks by blast
next
  show "Parse ''x x'' = Inr (Expr [] nil nil ''x'' 0,
      Some (New [Text ''syntax error at '', Quoted ''x'']))"
    by (simp add: parser_eval)
next
  show "message_text [Text ''syntax error at '', Quoted ''x'']
       = Some (''syntax error at '' @ [CHR 0x22] @ ''x'' @ [CHR 0x22])"
    by (simp add: Sprintf_q_def quote_byte_def)
next
  show "Parse ''(x + 1'' = Inr (nil, Some (New [Text ''unclosed paren at eof'']))"
    by (simp add: parser_eval)
next
  show "Parse [CHR ''('', CHR ''x'', CHR 0x00]
      = Inr (nil, Some (New [Text ''unclosed paren at eof'']))"
    by (simp add: parser_eval)
qed

theorem Parse_consumes_input_witness:
  "orList ''x @ 4'' = Inr (Expr [] nil nil ''x'' 0, ''@ 4'')
   \<and> Parse ''x @ 4'' = Inr (Expr [] nil nil ''x'' 0,
        Some (New [Text ''syntax error at '', Quoted ''@ 4'']))
   \<and> Parse ''(x + 1) '' = Inr (Expr ''+'' (Expr [] nil nil ''x'' 0) (Expr [] nil nil [] 1) [] 0, None)
   \<and> balanced 0 ''(x + 1) ''
   \<and> (\<exists>q. orList ''(x + 1) '' = Inr (Expr ''+'' (Expr [] nil nil ''x'' 0) (Expr [] nil nil [] 1) [] 0, q)
        \<and> skip q = [])"
proof -
  let ?T = "Expr ''+'' (Expr [] nil nil ''x'' 0) (Expr [] nil nil [] 1) [] 0"
  have o: "orList ''x @ 4'' = Inr (Expr [] nil nil ''x'' 0, ''@ 4'')"
    by (simp add: parser_eval)
  have s: "skip ''@ 4'' = ''@ 4''" "hd ''@ 4'' \<noteq> CHR 0x00"
    by (simp_all add: starts_def)
  have p: "Parse ''(x + 1) '' = Inr (?T, None)"
    by (simp add: parser_eval)
  have n: "CHR 0x00 \<notin> set ''(x + 1) ''"
    by simp
  have t: "Parse ''x @ 4'' = Inr (Expr [] nil nil ''x'' 0,
        Some (New [Text ''syntax error at '', Quoted ''@ 4'']))"
    using o s Parse_consumes_input [of "''x @ 4''" "Expr [] nil nil ''x'' 0" "''@ 4''"]
    by simp
  have b: "balanced 0 ''(x + 1) '' \<and> (\<exists>q. orList ''(x + 1) '' = Inr (?T, q) \<and> skip q = [])"
    using p n Parse_consumes_input [of "''(x + 1) ''" ?T "[]"] by blast
  show ?thesis
    using o t p b by blast
qed


section \<open>Numeric leaves\<close>

text \<open>
  Claim C8 as stated (every numeric leaf of a parsed tree is non-negative) does not hold:
  \<^verbatim>\<open>number\<close> computes \<^verbatim>\<open>10*n + int(c) - '0'\<close> in Go's \<^verbatim>\<open>int\<close>, which wraps around. The
  literal 9223372036854775808, that is \<open>2 ^ 63\<close>, is accepted and its leaf holds the most
  negative value.
\<close>

theorem Parse_literal_wraps_negative:
  "Parse ''9223372036854775808'' = Inr (Expr [] nil nil [] 9223372036854775808, None)
   \<and> sint (9223372036854775808 :: go_int) = - 9223372036854775808"
  by (simp add: parser_eval)

text \<open>
  Claim C8, amended: for every input accepted by Parse in which every integer literal
  (a maximal run of decimal digits that is not part of an identifier) denotes a number below
  \<open>2 ^ 63\<close>, every numeric leaf of the tree holds a non-negative value. In general
  \<^verbatim>\<open>number\<close> reads the maximal run of digits at the head of the input and returns its
  decimal value modulo \<open>2 ^ 64\<close>. A unary minus is a node of its own and is not folded
  into the literal: \<^verbatim>\<open>-3\<close> parses to the node \<^verbatim>\<open>-\<close> over the leaf 3.
\<close>

theorem Parse_numeric_leaves:
  "(Parse s = Inr (e, None) \<and> literals_in_range s \<longrightarrow> nonneg_leaves e)
   \<and> number p = (of_nat (decimal_value (takeWhile isDigit p)), dropWhile isDigit p)
   \<and> Parse ''-3'' = Inr (Expr ''-'' nil (Expr [] nil nil [] 3) [] 0, None)"
proof (intro conjI impI)
  assume "Parse s = Inr (e, None) \<and> literals_in_range s"
  then show "nonneg_leaves e" using Parse_nonneg_leaves by blast
next
  show "number p = (of_nat (decimal_value (takeWhile isDigit p)), dropWhile isDigit p)"
    by (rule number_value)
next
  show "Parse ''-3'' = Inr (Expr ''-'' nil (Expr [] nil nil [] 3) [] 0, None)"
    by (simp add: parser_eval)
qed

theorem Parse_numeric_leaves_witness:
  "Parse ''x9 + 12 * (007 - y)'' =
     Inr (Expr ''+'' (Expr [] nil nil ''x9'' 0)
            (Expr ''*'' (Expr [] nil nil [] 12)
               (Expr ''-'' (Expr [] nil nil [] 7) (Expr [] nil nil ''y'' 0) [] 0) [] 0) [] 0, None)
   \<and> literals_in_range ''x9 + 12 * (007 - y)''
   \<and> nonneg_leaves (Expr ''+'' (Expr [] nil nil ''x9'' 0)
            (Expr ''*'' (Expr [] nil nil [] 12)
               (Expr ''-'' (Expr [] nil nil [] 7) (Expr [] nil nil ''y'' 0) [] 0) [] 0) [] 0)"
proof -
  have p: "Parse ''x9 + 12 * (007 - y)'' =
     Inr (Expr ''+'' (Expr [] nil nil ''x9'' 0)
            (Expr ''*'' (Expr [] nil nil [] 12)
               (Expr ''-'' (Expr [] nil nil [] 7) (Expr [] nil nil ''y'' 0) [] 0) [] 0) [] 0, None)"
    by (simp add: parser_eval)
  have l: "literals_in_range ''x9 + 12 * (007 - y)''"
    by (simp add: isDigit_def isAlpha_def decimal_value_def)
  show ?thesis
    using p l Parse_numeric_leaves [of "''x9 + 12 * (007 - y)''"
        "Expr ''+'' (Expr [] nil nil ''x9'' 0)
            (Expr ''*'' (Expr [] nil nil [] 12)
               (Expr ''-'' (Expr [] nil nil [] 7) (Expr [] nil nil ''y'' 0) [] 0) [] 0) [] 0"]
    by blast
qed


section \<open>Rendering and parsing again\<close>





end
